theory Spec2Isabelle
  imports Main "HOL-Library.Sublist"
begin

section \<open>Data model of \<^verbatim>\<open>src/services/auto-rip.service.js\<close>\<close>

text \<open>
  A disc record as the service reads it: \<^verbatim>\<open>driveNumber\<close> and \<^verbatim>\<open>title\<close> are the two
  properties the service looks at; \<^verbatim>\<open>fileInfo\<close> stands for whatever
  \<^verbatim>\<open>getCompleteDiscInfo\<close> adds (absent before enrichment).
\<close>

record disc =
  driveNumber :: nat
  title :: string
  fileInfo :: "string option"

text \<open>
  What a collaborator throws, or rejects its promise with: an \<^verbatim>\<open>Error\<close> object, of
  which the service reads the \<^verbatim>\<open>message\<close>, a string; \<^verbatim>\<open>new Error()\<close> has the empty
  message.
\<close>

datatype js_error = JsError (message: string)

datatype level = LInfo | LWarning | LError

text \<open>The texts handed to \<^verbatim>\<open>Logger\<close>, one constructor for each call site.\<close>

datatype logmsg =
    AlreadyRunning              \<comment> \<open>"Auto-Rip service is already running"\<close>
  | Starting                    \<comment> \<open>"Starting Auto-Rip service..."\<close>
  | Stopping                    \<comment> \<open>"Stopping Auto-Rip service..."\<close>
  | PollingStarted int          \<comment> \<open>"Auto-Rip polling started with interval ...ms"\<close>
  | PollError js_error          \<comment> \<open>"Error during Auto-Rip poll", error\<close>
  | DetectedNew nat             \<comment> \<open>"Auto-Rip detected ... new disc(s). Getting full info..."\<close>
  | StartingProcessing nat      \<comment> \<open>"Starting processing for ... valid disc(s)..."\<close>
  | PollingWarning string       \<comment> \<open>"Auto-Rip polling warning: ..."\<close>
  | ProcessingFailed js_error   \<comment> \<open>"Auto-Rip processing failed", error\<close>

text \<open>
  Everything the service does to the outside, in the order it does it: status events,
  log lines, calls of the collaborators, and calls of the host's timer functions.
\<close>

datatype event =
    Emit string                       \<comment> \<open>\<^verbatim>\<open>this.emit("status", { state })\<close>\<close>
  | Log level logmsg
  | DetectAvailableDiscs              \<comment> \<open>\<^verbatim>\<open>DiscService.detectAvailableDiscs()\<close>\<close>
  | GetCompleteDiscInfo "disc list"   \<comment> \<open>\<^verbatim>\<open>DiscService.getCompleteDiscInfo(newDiscs)\<close>\<close>
  | ProcessBackupQueue "disc list"    \<comment> \<open>\<^verbatim>\<open>this.ripService.processBackupQueue(items)\<close>\<close>
  | ProcessRippingQueue "disc list"   \<comment> \<open>\<^verbatim>\<open>this.ripService.processRippingQueue(items)\<close>\<close>
  | SetInterval nat int               \<comment> \<open>\<^verbatim>\<open>setInterval(callback, interval)\<close>, with the handle returned\<close>
  | ClearInterval nat                 \<comment> \<open>\<^verbatim>\<open>clearInterval(handle)\<close>\<close>

text \<open>
  The fields of \<^verbatim>\<open>AutoRipService\<close> as the constructor sets them up
  (\<^verbatim>\<open>processedDiscs\<close> is a \<^verbatim>\<open>Map\<close> from drive number to title; \<^verbatim>\<open>pollInterval\<close> and
  \<^verbatim>\<open>currentOperation\<close> are \<^verbatim>\<open>null\<close> or a value), followed by the part of the host
  the service acts on: the interval timers that are active, the next timer handle the
  host hands out, and the trace of events so far.
\<close>

record service =
  isPolling :: bool
  pollInterval :: "nat option"
  processedDiscs :: "nat \<rightharpoonup> string"
  currentOperation :: "string option"
  isChecking :: bool
  timers :: "nat list"
  nextTimer :: nat
  trace :: "event list"

text \<open>
  What the service reads from outside during one scan cycle: the two settings of
  \<^verbatim>\<open>AppConfig\<close> (the mode may be unset), and the answers of the collaborators. A
  rejected promise is \<open>Inl\<close> of the error (for the pipeline: \<open>Some\<close> of it). A failure
  of the dynamic import of the disc service counts as a failure of the detection call.
\<close>

record env =
  autoRipPollInterval :: int
  autoRipMode :: "string option"
  detectAvailableDiscs :: "js_error + disc list"
  getCompleteDiscInfo :: "disc list \<Rightarrow> js_error + disc list"
  processBackupQueue :: "disc list \<Rightarrow> js_error option"
  processRippingQueue :: "disc list \<Rightarrow> js_error option"

definition constructor :: service where
  "constructor =
     \<lparr>isPolling = False, pollInterval = None, processedDiscs = Map.empty,
      currentOperation = None, isChecking = False,
      timers = [], nextTimer = 1, trace = []\<rparr>"

section \<open>Helpers\<close>

definition emit :: "string \<Rightarrow> service \<Rightarrow> service" where
  "emit st s = s\<lparr>trace := trace s @ [Emit st]\<rparr>"

definition logger :: "level \<Rightarrow> logmsg \<Rightarrow> service \<Rightarrow> service" where
  "logger l m s = s\<lparr>trace := trace s @ [Log l m]\<rparr>"

definition call :: "event \<Rightarrow> service \<Rightarrow> service" where
  "call e s = s\<lparr>trace := trace s @ [e]\<rparr>"

text \<open>JavaScript truthiness of a value that is \<^verbatim>\<open>null\<close> or a string.\<close>

fun truthy :: "string option \<Rightarrow> bool" where
  "truthy None = False"
| "truthy (Some v) = (v \<noteq> [])"

text \<open>\<^verbatim>\<open>String.prototype.includes\<close>: the second string occurs in the first.\<close>

fun includesStr :: "string \<Rightarrow> string \<Rightarrow> bool" where
  "includesStr [] sub = (sub = [])"
| "includesStr (c # cs) sub = (prefix sub (c # cs) \<or> includesStr cs sub)"

section \<open>processDiscs\<close>

text \<open>
  Lines 157-159: \<^verbatim>\<open>commandDataItems.forEach(item => this.processedDiscs.set(...))\<close>.
\<close>

definition markProcessed :: "disc list \<Rightarrow> (nat \<rightharpoonup> string) \<Rightarrow> (nat \<rightharpoonup> string)" where
  "markProcessed items m = fold (\<lambda>item m. m(driveNumber item \<mapsto> title item)) items m"

text \<open>
  Lines 150-165, up to the point where the pipeline promise is awaited: set the flag,
  publish \<^verbatim>\<open>processing\<close>, read the mode, mark every item, call one pipeline entry point.
\<close>

definition processDiscs_begin :: "env \<Rightarrow> disc list \<Rightarrow> service \<Rightarrow> service" where
  "processDiscs_begin e items s =
     (let s1 = s\<lparr>currentOperation := Some ''processing''\<rparr>;
          s2 = emit ''processing'' s1;
          mode = autoRipMode e;
          s3 = s2\<lparr>processedDiscs := markProcessed items (processedDiscs s2)\<rparr>
      in if mode = Some ''backup''
         then call (ProcessBackupQueue items) s3
         else call (ProcessRippingQueue items) s3)"

text \<open>The outcome of the pipeline promise awaited in lines 161-165.\<close>

definition pipelineOutcome :: "env \<Rightarrow> disc list \<Rightarrow> js_error option" where
  "pipelineOutcome e items =
     (if autoRipMode e = Some ''backup''
      then processBackupQueue e items
      else processRippingQueue e items)"

text \<open>
  Lines 167-172, after the pipeline promise has settled: the \<^verbatim>\<open>catch\<close> logs a rejection,
  the \<^verbatim>\<open>finally\<close> clears the flag and publishes \<^verbatim>\<open>scanning\<close>.
\<close>

definition processDiscs_end :: "js_error option \<Rightarrow> service \<Rightarrow> service" where
  "processDiscs_end outcome s =
     (let s1 = (case outcome of
                  Some error \<Rightarrow> logger LError (ProcessingFailed error) s
                | None \<Rightarrow> s);
          s2 = s1\<lparr>currentOperation := None\<rparr>
      in emit ''scanning'' s2)"

text \<open>
  \<^verbatim>\<open>processDiscs(commandDataItems)\<close>; the argument is \<open>None\<close> for \<^verbatim>\<open>null\<close> and
  \<^verbatim>\<open>undefined\<close>. Nothing else of the service runs between the two halves here.
\<close>

definition processDiscs :: "env \<Rightarrow> disc list option \<Rightarrow> service \<Rightarrow> service" where
  "processDiscs e commandDataItems s =
     (case commandDataItems of
        None \<Rightarrow> s
      | Some items \<Rightarrow>
          if length items = 0 then s
          else processDiscs_end (pipelineOutcome e items) (processDiscs_begin e items s))"

section \<open>checkDrives\<close>

text \<open>Lines 106-111: the map from drive number to title of the detected discs.\<close>

definition detectedDriveMap :: "disc list \<Rightarrow> (nat \<rightharpoonup> string)" where
  "detectedDriveMap detectedDiscs =
     fold (\<lambda>d m. m(driveNumber d \<mapsto> title d)) detectedDiscs Map.empty"

text \<open>
  Lines 113-118: every entry of \<^verbatim>\<open>processedDiscs\<close> whose drive the map does not have, or
  has with another title, is deleted. Each round of the loop looks at and deletes its own
  key only, so the result is given key by key.
\<close>

definition cleanup :: "(nat \<rightharpoonup> string) \<Rightarrow> (nat \<rightharpoonup> string) \<Rightarrow> (nat \<rightharpoonup> string)" where
  "cleanup dm processed =
     (\<lambda>drive. case processed drive of
        None \<Rightarrow> None
      | Some t \<Rightarrow> if dm drive = None \<or> dm drive \<noteq> Some t then None else Some t)"

text \<open>
  The same loop written as a loop, over the entries of \<^verbatim>\<open>processedDiscs\<close> in the order
  the \<^verbatim>\<open>Map\<close> iterates them; \<open>cleanupLoop_cleanup\<close> below shows that it computes
  \<open>cleanup\<close>, whatever the order.
\<close>

definition cleanupLoop ::
  "(nat \<rightharpoonup> string) \<Rightarrow> (nat \<times> string) list \<Rightarrow> (nat \<rightharpoonup> string) \<Rightarrow> (nat \<rightharpoonup> string)" where
  "cleanupLoop dm entries processed =
     fold (\<lambda>(drive, t) m. if dm drive = None \<or> dm drive \<noteq> Some t then m(drive := None) else m)
       entries processed"

text \<open>Lines 121-123: the detected discs whose drive \<^verbatim>\<open>processedDiscs\<close> does not have.\<close>

definition newDiscs :: "disc list \<Rightarrow> (nat \<rightharpoonup> string) \<Rightarrow> disc list" where
  "newDiscs detectedDiscs processed =
     filter (\<lambda>d. processed (driveNumber d) = None) detectedDiscs"

text \<open>Lines 134-140: the \<^verbatim>\<open>catch\<close> of \<^verbatim>\<open>checkDrives\<close>.\<close>

definition checkDrives_catch :: "js_error \<Rightarrow> service \<Rightarrow> service" where
  "checkDrives_catch error s =
     (if message error \<noteq> [] \<and> \<not> includesStr (message error) ''executable not found''
      then logger LWarning (PollingWarning (message error)) s
      else s)"

text \<open>Lines 131-132, after the enrichment promise has settled.\<close>

definition checkDrives_enriched :: "env \<Rightarrow> js_error + disc list \<Rightarrow> service \<Rightarrow> service" where
  "checkDrives_enriched e r s =
     (case r of
        Inl error \<Rightarrow> checkDrives_catch error s
      | Inr completeDiscItems \<Rightarrow>
          processDiscs e (Some completeDiscItems)
            (logger LInfo (StartingProcessing (length completeDiscItems)) s))"

text \<open>
  \<^verbatim>\<open>checkDrives()\<close>, lines 100-141, with nothing else of the service running while it
  waits for its collaborators.
\<close>

definition checkDrives :: "env \<Rightarrow> service \<Rightarrow> service" where
  "checkDrives e s =
     (let s0 = call DetectAvailableDiscs s in
      case detectAvailableDiscs e of
        Inl error \<Rightarrow> checkDrives_catch error s0
      | Inr detectedDiscs \<Rightarrow>
          let dm = detectedDriveMap detectedDiscs;
              s1 = s0\<lparr>processedDiscs := cleanup dm (processedDiscs s0)\<rparr>;
              new = newDiscs detectedDiscs (processedDiscs s1)
          in if length new > 0
             then
               let s2 = logger LInfo (DetectedNew (length new)) s1;
                   s3 = call (GetCompleteDiscInfo new) s2
               in checkDrives_enriched e (getCompleteDiscInfo e new) s3
             else s1)"

section \<open>Polling\<close>

text \<open>
  Lines 90-95. The handle that \<^verbatim>\<open>setInterval\<close> returns is an object under Node, so
  the test of line 91 fails for \<^verbatim>\<open>null\<close> only.
\<close>

definition stopPolling :: "service \<Rightarrow> service" where
  "stopPolling s =
     (case pollInterval s of
        None \<Rightarrow> s
      | Some h \<Rightarrow>
          (call (ClearInterval h) s)\<lparr>timers := removeAll h (timers s), pollInterval := None\<rparr>)"

text \<open>
  Lines 64-85, the registration of the timer; the callback itself is \<open>tick\<close> below. The
  host returns a handle it has not handed out before. The poll interval is a whole
  number of seconds, and the product of line 67 is the exact one: the code computes it
  on doubles, which agrees for every product below \<open>2 ^ 53\<close> and rounds above.
\<close>

definition startPolling :: "env \<Rightarrow> service \<Rightarrow> service" where
  "startPolling e s =
     (let s1 = stopPolling s;
          interval = autoRipPollInterval e * 1000;
          s2 = logger LInfo (PollingStarted interval) s1;
          h = nextTimer s2;
          s3 = (call (SetInterval h interval) s2)
                 \<lparr>timers := timers s2 @ [h], nextTimer := Suc h\<rparr>
      in s3\<lparr>pollInterval := Some h\<rparr>)"

text \<open>
  Lines 70-84, the callback of the timer. \<open>checkDrives\<close> catches every error of its
  body, so the \<^verbatim>\<open>catch\<close> of the callback has nothing to log.
\<close>

definition tick :: "env \<Rightarrow> service \<Rightarrow> service" where
  "tick e s =
     (if truthy (currentOperation s) \<or> isChecking s then s
      else
        let s1 = s\<lparr>isChecking := True\<rparr>;
            s2 = checkDrives e s1
        in s2\<lparr>isChecking := False\<rparr>)"

text \<open>Lines 25-35.\<close>

definition start :: "env \<Rightarrow> service \<Rightarrow> service" where
  "start e s =
     (if isPolling s then logger LInfo AlreadyRunning s
      else
        let s1 = logger LInfo Starting s;
            s2 = s1\<lparr>isPolling := True\<rparr>;
            s3 = startPolling e s2
        in emit ''scanning'' s3)"

text \<open>Lines 40-49.\<close>

definition stop :: "service \<Rightarrow> service" where
  "stop s =
     (if \<not> isPolling s then s
      else
        let s1 = logger LInfo Stopping s;
            s2 = s1\<lparr>isPolling := False\<rparr>;
            s3 = stopPolling s2
        in emit ''idle'' s3)"

text \<open>Lines 54-59.\<close>

definition getStatus :: "service \<Rightarrow> bool \<times> string option" where
  "getStatus s = (isPolling s, currentOperation s)"

section \<open>Reading the trace\<close>

text \<open>The events a run has added to the trace.\<close>

definition added :: "service \<Rightarrow> service \<Rightarrow> event list" where
  "added s s' = drop (length (trace s)) (trace s')"

fun isPipelineCall :: "event \<Rightarrow> bool" where
  "isPipelineCall (ProcessBackupQueue b) = True"
| "isPipelineCall (ProcessRippingQueue b) = True"
| "isPipelineCall ev = False"

fun isEnrichCall :: "event \<Rightarrow> bool" where
  "isEnrichCall (GetCompleteDiscInfo ds) = True"
| "isEnrichCall ev = False"

fun isLogAt :: "level \<Rightarrow> event \<Rightarrow> bool" where
  "isLogAt l (Log l' m) = (l = l')"
| "isLogAt l ev = False"

text \<open>The discs a call of a collaborator is given.\<close>

fun batchOf :: "event \<Rightarrow> disc list" where
  "batchOf (GetCompleteDiscInfo ds) = ds"
| "batchOf (ProcessBackupQueue b) = b"
| "batchOf (ProcessRippingQueue b) = b"
| "batchOf ev = []"

text \<open>
  The discs one scan cycle selects as new, and the batch it hands to \<open>processDiscs\<close>
  (empty when it hands over nothing), read off the answers of the collaborators.
\<close>

definition cycleNew :: "env \<Rightarrow> service \<Rightarrow> disc list" where
  "cycleNew e s =
     (case detectAvailableDiscs e of
        Inl error \<Rightarrow> []
      | Inr detectedDiscs \<Rightarrow>
          newDiscs detectedDiscs (cleanup (detectedDriveMap detectedDiscs) (processedDiscs s)))"

definition cycleBatch :: "env \<Rightarrow> service \<Rightarrow> disc list" where
  "cycleBatch e s =
     (if cycleNew e s = [] then []
      else case getCompleteDiscInfo e (cycleNew e s) of
             Inl error \<Rightarrow> []
           | Inr completeDiscItems \<Rightarrow> completeDiscItems)"

text \<open>The error, if any, that the inventory raises inside one scan cycle.\<close>

definition cycleError :: "env \<Rightarrow> service \<Rightarrow> js_error option" where
  "cycleError e s =
     (case detectAvailableDiscs e of
        Inl error \<Rightarrow> Some error
      | Inr detectedDiscs \<Rightarrow>
          (if cycleNew e s = [] then None
           else (case getCompleteDiscInfo e (cycleNew e s) of
                   Inl error \<Rightarrow> Some error
                 | Inr completeDiscItems \<Rightarrow> None)))"

text \<open>The pipeline call that the mode of the configuration selects.\<close>

definition pipelineCall :: "env \<Rightarrow> disc list \<Rightarrow> event" where
  "pipelineCall e items =
     (if autoRipMode e = Some ''backup''
      then ProcessBackupQueue items
      else ProcessRippingQueue items)"

text \<open>Two lists of records name the same discs, in the same order.\<close>

definition sameDiscs :: "disc list \<Rightarrow> disc list \<Rightarrow> bool" where
  "sameDiscs xs ys =
     (map (\<lambda>d. (driveNumber d, title d)) xs = map (\<lambda>d. (driveNumber d, title d)) ys)"

text \<open>The timers that are active are exactly the one \<open>pollInterval\<close> refers to.\<close>

definition singleTimer :: "service \<Rightarrow> bool" where
  "singleTimer s =
     (timers s = (case pollInterval s of None \<Rightarrow> [] | Some h \<Rightarrow> [h]))"

section \<open>The service on the event loop\<close>

text \<open>
  The callback of the timer is an \<^verbatim>\<open>async\<close> function: it runs until it awaits a
  collaborator, and is resumed when that promise settles. In between, the host may run
  other callbacks and other calls of \<^verbatim>\<open>start\<close> and \<^verbatim>\<open>stop\<close>. A task is a callback
  that is waiting, named by the promise it awaits.
\<close>

datatype task =
    AwaitDetect                  \<comment> \<open>line 105\<close>
  | AwaitEnrich "disc list"      \<comment> \<open>line 129, with \<^verbatim>\<open>newDiscs\<close>\<close>
  | AwaitPipeline "disc list"    \<comment> \<open>lines 162 and 164, with \<^verbatim>\<open>commandDataItems\<close>\<close>

record machine =
  svc :: service
  pending :: "task list"

definition boot :: machine where
  "boot = \<lparr>svc = constructor, pending = []\<rparr>"

text \<open>
  Lines 106-129, from the answer of the detection to the next await or to the end of
  \<open>checkDrives\<close>; the second component is \<open>None\<close> when the callback has run to its end.
\<close>

definition resumeDetect :: "js_error + disc list \<Rightarrow> service \<Rightarrow> service \<times> task option" where
  "resumeDetect r s0 =
     (case r of
        Inl error \<Rightarrow> (checkDrives_catch error s0, None)
      | Inr detectedDiscs \<Rightarrow>
          let dm = detectedDriveMap detectedDiscs;
              s1 = s0\<lparr>processedDiscs := cleanup dm (processedDiscs s0)\<rparr>;
              new = newDiscs detectedDiscs (processedDiscs s1)
          in if length new > 0
             then
               let s2 = logger LInfo (DetectedNew (length new)) s1;
                   s3 = call (GetCompleteDiscInfo new) s2
               in (s3, Some (AwaitEnrich new))
             else (s1, None))"

text \<open>Lines 131-132 and 148-165, from the answer of the enrichment on.\<close>

definition resumeEnrich ::
  "env \<Rightarrow> js_error + disc list \<Rightarrow> service \<Rightarrow> service \<times> task option" where
  "resumeEnrich e r s =
     (case r of
        Inl error \<Rightarrow> (checkDrives_catch error s, None)
      | Inr completeDiscItems \<Rightarrow>
          let s1 = logger LInfo (StartingProcessing (length completeDiscItems)) s
          in if length completeDiscItems = 0 then (s1, None)
             else (processDiscs_begin e completeDiscItems s1,
                   Some (AwaitPipeline completeDiscItems)))"

text \<open>
  The callback at place \<open>i\<close> has run up to its next await, or to its end, where the
  \<^verbatim>\<open>finally\<close> of line 82 clears \<open>isChecking\<close>.
\<close>

definition continue :: "nat \<Rightarrow> service \<times> task option \<Rightarrow> machine \<Rightarrow> machine" where
  "continue i r m =
     (case snd r of
        None \<Rightarrow>
          \<lparr>svc = (fst r)\<lparr>isChecking := False\<rparr>,
           pending = take i (pending m) @ drop (Suc i) (pending m)\<rparr>
      | Some t \<Rightarrow> \<lparr>svc = fst r, pending = (pending m)[i := t]\<rparr>)"

datatype action =
    CallStart                                  \<comment> \<open>somebody calls \<^verbatim>\<open>start()\<close>\<close>
  | CallStop                                   \<comment> \<open>somebody calls \<^verbatim>\<open>stop()\<close>\<close>
  | TimerFires nat                             \<comment> \<open>the host runs the callback of a timer\<close>
  | DetectSettles nat "js_error + disc list"   \<comment> \<open>the promise of a waiting callback settles\<close>
  | EnrichSettles nat "js_error + disc list"
  | PipelineSettles nat "js_error option"

text \<open>
  One turn of the event loop; \<open>None\<close> when the action cannot happen (a timer that is
  not active, a promise nobody awaits). The timer callback is lines 70-84.
\<close>

fun step :: "env \<Rightarrow> action \<Rightarrow> machine \<Rightarrow> machine option" where
  "step e CallStart m = Some (m\<lparr>svc := start e (svc m)\<rparr>)"
| "step e CallStop m = Some (m\<lparr>svc := stop (svc m)\<rparr>)"
| "step e (TimerFires h) m =
     (if h \<in> set (timers (svc m)) then
        if truthy (currentOperation (svc m)) \<or> isChecking (svc m) then Some m
        else Some \<lparr>svc = call DetectAvailableDiscs ((svc m)\<lparr>isChecking := True\<rparr>),
                   pending = pending m @ [AwaitDetect]\<rparr>
      else None)"
| "step e (DetectSettles i r) m =
     (if i < length (pending m) then
        case pending m ! i of
          AwaitDetect \<Rightarrow> Some (continue i (resumeDetect r (svc m)) m)
        | AwaitEnrich new \<Rightarrow> None
        | AwaitPipeline items \<Rightarrow> None
      else None)"
| "step e (EnrichSettles i r) m =
     (if i < length (pending m) then
        case pending m ! i of
          AwaitDetect \<Rightarrow> None
        | AwaitEnrich new \<Rightarrow> Some (continue i (resumeEnrich e r (svc m)) m)
        | AwaitPipeline items \<Rightarrow> None
      else None)"
| "step e (PipelineSettles i r) m =
     (if i < length (pending m) then
        case pending m ! i of
          AwaitDetect \<Rightarrow> None
        | AwaitEnrich new \<Rightarrow> None
        | AwaitPipeline items \<Rightarrow> Some (continue i (processDiscs_end r (svc m), None) m)
      else None)"

fun run :: "env \<Rightarrow> action list \<Rightarrow> machine \<Rightarrow> machine option" where
  "run e [] m = Some m"
| "run e (a # as) m = (case step e a m of None \<Rightarrow> None | Some m' \<Rightarrow> run e as m')"

text \<open>The action by which the collaborators of \<open>e\<close> answer the first waiting callback.\<close>

fun answer :: "env \<Rightarrow> task \<Rightarrow> action" where
  "answer e AwaitDetect = DetectSettles 0 (detectAvailableDiscs e)"
| "answer e (AwaitEnrich new) = EnrichSettles 0 (getCompleteDiscInfo e new)"
| "answer e (AwaitPipeline items) = PipelineSettles 0 (pipelineOutcome e items)"

definition settle :: "env \<Rightarrow> machine \<Rightarrow> machine option" where
  "settle e m = (case pending m of [] \<Rightarrow> Some m | t # ts \<Rightarrow> step e (answer e t) m)"

fun isAwaitPipeline :: "task \<Rightarrow> bool" where
  "isAwaitPipeline (AwaitPipeline items) = True"
| "isAwaitPipeline t = False"

text \<open>
  The two flags tell what is waiting: nothing, and both are clear; or one callback, and
  \<open>isChecking\<close> is set, with \<open>currentOperation\<close> set once it waits for the pipeline.
\<close>

definition gated :: "machine \<Rightarrow> bool" where
  "gated m =
     (case pending m of
        [] \<Rightarrow> \<not> isChecking (svc m) \<and> currentOperation (svc m) = None
      | [t] \<Rightarrow> isChecking (svc m) \<and>
               currentOperation (svc m) = (if isAwaitPipeline t then Some ''processing'' else None)
      | t # t' # ts \<Rightarrow> False)"

section \<open>Example values\<close>

definition movieA :: disc where
  "movieA = \<lparr>driveNumber = 1, title = ''Movie A'', fileInfo = None\<rparr>"

definition movieB :: disc where
  "movieB = \<lparr>driveNumber = 1, title = ''Movie B'', fileInfo = None\<rparr>"

definition withInfo :: "disc \<Rightarrow> disc" where
  "withInfo d = d\<lparr>fileInfo := Some ''0''\<rparr>"

text \<open>
  A configuration with the given mode and collaborators that report the given detection
  result, enrich every disc they are given, and end the pipeline with the given outcome.
\<close>

definition exampleEnv :: "string option \<Rightarrow> js_error + disc list \<Rightarrow> js_error option \<Rightarrow> env" where
  "exampleEnv mode detected outcome =
     \<lparr>autoRipPollInterval = 5, autoRipMode = mode,
      detectAvailableDiscs = detected,
      getCompleteDiscInfo = (\<lambda>ds. Inr (map withInfo ds)),
      processBackupQueue = (\<lambda>items. outcome),
      processRippingQueue = (\<lambda>items. outcome)\<rparr>"

text \<open>The service after \<^verbatim>\<open>start()\<close> and a first tick, waiting for the detection.\<close>

definition waitingMachine :: machine where
  "waitingMachine =
     \<lparr>svc = \<lparr>isPolling = True, pollInterval = Some 1, processedDiscs = Map.empty,
             currentOperation = None, isChecking = True, timers = [1], nextTimer = 2,
             trace = [Log LInfo Starting, Log LInfo (PollingStarted 5000), SetInterval 1 5000,
                      Emit ''scanning'', DetectAvailableDiscs]\<rparr>,
      pending = [AwaitDetect]\<rparr>"

text \<open>A service that has already processed \<open>movieA\<close> in drive 1.\<close>

definition trackedA :: service where
  "trackedA = constructor\<lparr>processedDiscs := [1 \<mapsto> ''Movie A'']\<rparr>"

text \<open>
  The new service after a dispatch of \<open>movieA\<close> whose pipeline failed; the same after
  a scan cycle that then found the drive empty.
\<close>

definition failedA :: service where
  "failedA =
     processDiscs (exampleEnv None (Inr []) (Some (JsError ''disk full'')))
       (Some [withInfo movieA]) constructor"

definition ejectedA :: service where
  "ejectedA = checkDrives (exampleEnv None (Inr []) None) failedA"

text \<open>The service \<open>trackedA\<close> after a scan cycle that found the drive empty.\<close>

definition purgedA :: service where
  "purgedA = checkDrives (exampleEnv None (Inr []) None) trackedA"

text \<open>
  Collaborators as in \<open>exampleEnv\<close> (mode unset, pipeline succeeding), but with an
  enrichment that returns no record, and with one that fails.
\<close>

definition emptyEnrichEnv :: "js_error + disc list \<Rightarrow> env" where
  "emptyEnrichEnv detected =
     (exampleEnv None detected None)\<lparr>getCompleteDiscInfo := (\<lambda>ds. Inr [])\<rparr>"

definition failingEnrichEnv :: "js_error + disc list \<Rightarrow> env" where
  "failingEnrichEnv detected =
     (exampleEnv None detected None)\<lparr>getCompleteDiscInfo := (\<lambda>ds. Inl (JsError ''read error''))\<rparr>"

section \<open>Basic facts\<close>

lemma trace_emit: "trace (emit st s) = trace s @ [Emit st]"
  by (simp add: emit_def)

lemma trace_logger: "trace (logger l m s) = trace s @ [Log l m]"
  by (simp add: logger_def)

lemma trace_call: "trace (call ev s) = trace s @ [ev]"
  by (simp add: call_def)

lemma added_append: "trace s' = trace s @ evs \<Longrightarrow> added s s' = evs"
  by (simp add: added_def)

subsection \<open>What each operation leaves alone\<close>

lemma fields_processDiscs_begin:
  "currentOperation (processDiscs_begin e items s) = Some ''processing''"
  "isPolling (processDiscs_begin e items s) = isPolling s"
  "pollInterval (processDiscs_begin e items s) = pollInterval s"
  "timers (processDiscs_begin e items s) = timers s"
  "isChecking (processDiscs_begin e items s) = isChecking s"
  "processedDiscs (processDiscs_begin e items s) = markProcessed items (processedDiscs s)"
  by (simp_all add: processDiscs_begin_def Let_def emit_def call_def)

lemma fields_processDiscs_end:
  "currentOperation (processDiscs_end outcome s) = None"
  "isPolling (processDiscs_end outcome s) = isPolling s"
  "pollInterval (processDiscs_end outcome s) = pollInterval s"
  "timers (processDiscs_end outcome s) = timers s"
  "isChecking (processDiscs_end outcome s) = isChecking s"
  "processedDiscs (processDiscs_end outcome s) = processedDiscs s"
  by (simp_all add: processDiscs_end_def Let_def emit_def logger_def split: option.splits)

lemma fields_checkDrives_catch:
  "currentOperation (checkDrives_catch err s) = currentOperation s"
  "isPolling (checkDrives_catch err s) = isPolling s"
  "pollInterval (checkDrives_catch err s) = pollInterval s"
  "timers (checkDrives_catch err s) = timers s"
  "isChecking (checkDrives_catch err s) = isChecking s"
  "processedDiscs (checkDrives_catch err s) = processedDiscs s"
  by (simp_all add: checkDrives_catch_def logger_def)

lemma fields_stopPolling:
  "currentOperation (stopPolling s) = currentOperation s"
  "isPolling (stopPolling s) = isPolling s"
  "isChecking (stopPolling s) = isChecking s"
  "processedDiscs (stopPolling s) = processedDiscs s"
  "pollInterval (stopPolling s) = None"
  by (simp_all add: stopPolling_def call_def split: option.splits)

lemma fields_startPolling:
  "currentOperation (startPolling e s) = currentOperation s"
  "isPolling (startPolling e s) = isPolling s"
  "isChecking (startPolling e s) = isChecking s"
  "processedDiscs (startPolling e s) = processedDiscs s"
  by (simp_all add: startPolling_def Let_def call_def logger_def fields_stopPolling)

lemma fields_start:
  "currentOperation (start e s) = currentOperation s"
  "isChecking (start e s) = isChecking s"
  "processedDiscs (start e s) = processedDiscs s"
  by (simp_all add: start_def Let_def emit_def logger_def fields_startPolling)

lemma fields_stop:
  "currentOperation (stop s) = currentOperation s"
  "isChecking (stop s) = isChecking s"
  "processedDiscs (stop s) = processedDiscs s"
  by (simp_all add: stop_def Let_def emit_def logger_def fields_stopPolling)

lemma fields_resumeDetect:
  "currentOperation (fst (resumeDetect r s)) = currentOperation s"
  "isChecking (fst (resumeDetect r s)) = isChecking s"
  "timers (fst (resumeDetect r s)) = timers s"
  "pollInterval (fst (resumeDetect r s)) = pollInterval s"
  by (simp_all add: resumeDetect_def Let_def fields_checkDrives_catch call_def logger_def
        split: sum.splits)

lemma task_resumeDetect:
  "snd (resumeDetect r s) = Some t \<Longrightarrow> \<not> isAwaitPipeline t"
  by (auto simp: resumeDetect_def Let_def split: sum.splits if_splits)

lemma fields_resumeEnrich:
  "isChecking (fst (resumeEnrich e r s)) = isChecking s"
  "timers (fst (resumeEnrich e r s)) = timers s"
  "pollInterval (fst (resumeEnrich e r s)) = pollInterval s"
  by (simp_all add: resumeEnrich_def Let_def fields_checkDrives_catch fields_processDiscs_begin
        logger_def split: sum.splits)

lemma operation_resumeEnrich:
  "currentOperation (fst (resumeEnrich e r s)) =
     (case snd (resumeEnrich e r s) of None \<Rightarrow> currentOperation s | Some t \<Rightarrow> Some ''processing'')"
  by (simp add: resumeEnrich_def Let_def fields_checkDrives_catch fields_processDiscs_begin
        logger_def split: sum.splits)

lemma task_resumeEnrich:
  "snd (resumeEnrich e r s) = Some t \<Longrightarrow> isAwaitPipeline t"
  by (auto simp: resumeEnrich_def Let_def split: sum.splits if_splits)

subsection \<open>The trace of a dispatch\<close>

lemma trace_processDiscs_begin:
  "trace (processDiscs_begin e items s) = trace s @ [Emit ''processing'', pipelineCall e items]"
  by (simp add: processDiscs_begin_def pipelineCall_def Let_def trace_emit trace_call)

lemma trace_processDiscs_end:
  "trace (processDiscs_end outcome s) =
     trace s @ (case outcome of Some error \<Rightarrow> [Log LError (ProcessingFailed error)] | None \<Rightarrow> [])
       @ [Emit ''scanning'']"
  by (simp add: processDiscs_end_def Let_def trace_emit trace_logger split: option.splits)

lemma trace_processDiscs:
  "items \<noteq> [] \<Longrightarrow>
   trace (processDiscs e (Some items) s) =
     trace s @ [Emit ''processing'', pipelineCall e items]
       @ (case pipelineOutcome e items of
            Some error \<Rightarrow> [Log LError (ProcessingFailed error)] | None \<Rightarrow> [])
       @ [Emit ''scanning'']"
  by (simp add: processDiscs_def trace_processDiscs_begin trace_processDiscs_end)

lemma pipelineCalls_processDiscs:
  "items \<noteq> [] \<Longrightarrow>
   filter isPipelineCall (added s (processDiscs e (Some items) s)) = [pipelineCall e items]"
  by (simp add: added_def trace_processDiscs pipelineCall_def split: option.splits)

subsection \<open>A tick is the callback run with nothing in between\<close>

lemma tick_simulation:
  assumes "h \<in> set (timers s)" and "\<not> truthy (currentOperation s)" and "\<not> isChecking s"
  shows "Option.bind (Option.bind (Option.bind
           (step e (TimerFires h) \<lparr>svc = s, pending = []\<rparr>) (settle e)) (settle e)) (settle e)
         = Some \<lparr>svc = tick e s, pending = []\<rparr>"
  using assms
  by (simp add: tick_def checkDrives_def settle_def continue_def resumeDetect_def resumeEnrich_def
      checkDrives_enriched_def processDiscs_def Let_def split: sum.splits)

section \<open>The empty batch\<close>

text \<open>
  C8. Called with \<^verbatim>\<open>null\<close>, \<^verbatim>\<open>undefined\<close> or an empty batch, \<open>processDiscs\<close> returns
  the service as it found it: no status event (the trace is the same), the same
  \<open>processedDiscs\<close>, the same \<open>currentOperation\<close>, no pipeline call.
\<close>

theorem processDiscs_empty_noop:
  "processDiscs e None s = s \<and> processDiscs e (Some []) s = s"
  by (simp add: processDiscs_def)

theorem processDiscs_empty_noop_witness:
  "processDiscs (exampleEnv (Some ''rip'') (Inr []) None) None constructor = constructor \<and>
   processDiscs (exampleEnv (Some ''rip'') (Inr []) None) (Some []) constructor = constructor"
  using processDiscs_empty_noop [of "exampleEnv (Some ''rip'') (Inr []) None" constructor]
  by simp

section \<open>Mode routing\<close>

text \<open>
  C7. For a non-empty batch, the pipeline calls of \<open>processDiscs\<close> are exactly one call
  of the rip entry point with the batch when the mode is \<^verbatim>\<open>rip\<close> (so none of the
  backup entry point), and exactly one call of the backup entry point with the batch when
  the mode is \<^verbatim>\<open>backup\<close> (so none of the rip entry point).
\<close>

theorem mode_routing:
  "items \<noteq> [] \<Longrightarrow>
   (autoRipMode e = Some ''rip'' \<longrightarrow>
      filter isPipelineCall (added s (processDiscs e (Some items) s)) = [ProcessRippingQueue items]) \<and>
   (autoRipMode e = Some ''backup'' \<longrightarrow>
      filter isPipelineCall (added s (processDiscs e (Some items) s)) = [ProcessBackupQueue items])"
  by (simp add: pipelineCalls_processDiscs pipelineCall_def)

theorem mode_routing_witness:
  "filter isPipelineCall
     (added constructor (processDiscs (exampleEnv (Some ''rip'') (Inr []) None) (Some [movieA]) constructor))
     = [ProcessRippingQueue [movieA]] \<and>
   filter isPipelineCall
     (added constructor (processDiscs (exampleEnv (Some ''backup'') (Inr []) None) (Some [movieA]) constructor))
     = [ProcessBackupQueue [movieA]]"
  using mode_routing [of "[movieA]" "exampleEnv (Some ''rip'') (Inr []) None" constructor]
        mode_routing [of "[movieA]" "exampleEnv (Some ''backup'') (Inr []) None" constructor]
  by (simp add: exampleEnv_def)

text \<open>
  C10. For a non-empty batch, every mode other than the exact string \<^verbatim>\<open>backup\<close> (an
  unset mode, a misspelling, any other string) leads to exactly one call of the rip
  entry point with the batch; the exact string \<^verbatim>\<open>backup\<close> leads to exactly one call of
  the backup entry point. Every mode leads to one of the two, so none is rejected.
\<close>

theorem rip_is_default:
  "items \<noteq> [] \<Longrightarrow>
   (autoRipMode e \<noteq> Some ''backup'' \<longrightarrow>
      filter isPipelineCall (added s (processDiscs e (Some items) s)) = [ProcessRippingQueue items]) \<and>
   (autoRipMode e = Some ''backup'' \<longrightarrow>
      filter isPipelineCall (added s (processDiscs e (Some items) s)) = [ProcessBackupQueue items])"
  by (simp add: pipelineCalls_processDiscs pipelineCall_def)

theorem rip_is_default_witness:
  "filter isPipelineCall
     (added constructor (processDiscs (exampleEnv None (Inr []) None) (Some [movieA]) constructor))
     = [ProcessRippingQueue [movieA]] \<and>
   filter isPipelineCall
     (added constructor (processDiscs (exampleEnv (Some ''Backup'') (Inr []) None) (Some [movieA]) constructor))
     = [ProcessRippingQueue [movieA]]"
  using rip_is_default [of "[movieA]" "exampleEnv None (Inr []) None" constructor]
        rip_is_default [of "[movieA]" "exampleEnv (Some ''Backup'') (Inr []) None" constructor]
  by (simp add: exampleEnv_def)

section \<open>The end of a dispatch\<close>

text \<open>
  C5, as amended. For a non-empty batch and whatever the pipeline answers, \<open>processDiscs\<close>
  ends with \<open>currentOperation\<close> cleared and with the status event \<^verbatim>\<open>scanning\<close> as the
  last event of the trace; it publishes that event whether polling is active or not, and
  it changes neither \<open>isPolling\<close> nor the timer. The same holds of the part of
  \<open>processDiscs\<close> that runs after the pipeline promise has settled, from whatever state
  the service is in by then.
\<close>

theorem terminal_step:
  "items \<noteq> [] \<Longrightarrow>
   currentOperation (processDiscs e (Some items) s) = None \<and>
   last (trace (processDiscs e (Some items) s)) = Emit ''scanning'' \<and>
   isPolling (processDiscs e (Some items) s) = isPolling s \<and>
   pollInterval (processDiscs e (Some items) s) = pollInterval s \<and>
   timers (processDiscs e (Some items) s) = timers s \<and>
   currentOperation (processDiscs_end outcome s') = None \<and>
   last (trace (processDiscs_end outcome s')) = Emit ''scanning'' \<and>
   isPolling (processDiscs_end outcome s') = isPolling s' \<and>
   pollInterval (processDiscs_end outcome s') = pollInterval s' \<and>
   timers (processDiscs_end outcome s') = timers s'"
  by (simp add: processDiscs_def fields_processDiscs_begin fields_processDiscs_end
        trace_processDiscs_end)

theorem terminal_step_witness:
  "currentOperation (processDiscs (exampleEnv (Some ''rip'') (Inr []) (Some (JsError ''disk full'')))
      (Some [movieA]) (start (exampleEnv (Some ''rip'') (Inr []) None) constructor)) = None \<and>
   last (trace (processDiscs (exampleEnv (Some ''rip'') (Inr []) (Some (JsError ''disk full'')))
      (Some [movieA]) (start (exampleEnv (Some ''rip'') (Inr []) None) constructor))) = Emit ''scanning'' \<and>
   isPolling (processDiscs (exampleEnv (Some ''rip'') (Inr []) (Some (JsError ''disk full'')))
      (Some [movieA]) (start (exampleEnv (Some ''rip'') (Inr []) None) constructor))"
  using terminal_step [of "[movieA]" "exampleEnv (Some ''rip'') (Inr []) (Some (JsError ''disk full''))"
      "start (exampleEnv (Some ''rip'') (Inr []) None) constructor"]
  by (simp add: start_def constructor_def Let_def logger_def emit_def startPolling_def stopPolling_def call_def)

text \<open>
  C5 as stated fails: the event \<^verbatim>\<open>scanning\<close> is published although polling is not
  active, both when \<open>processDiscs\<close> is called on a service that was never started and
  when \<^verbatim>\<open>stop()\<close> is called while the pipeline is running.
\<close>

theorem scanning_iff_polling_counterexample:
  "\<not> isPolling constructor \<and>
   Emit ''scanning'' \<in> set (added constructor
      (processDiscs (exampleEnv (Some ''rip'') (Inr []) None) (Some [movieA]) constructor)) \<and>
   (case run (exampleEnv (Some ''rip'') (Inr []) None)
           [CallStart, TimerFires 1, DetectSettles 0 (Inr [movieA]),
            EnrichSettles 0 (Inr [withInfo movieA]), CallStop, PipelineSettles 0 None] boot of
      None \<Rightarrow> False
    | Some m \<Rightarrow> \<not> isPolling (svc m) \<and> last (trace (svc m)) = Emit ''scanning'')"
  apply (intro conjI)
  apply (simp add: constructor_def)
  apply (simp add: added_def trace_processDiscs)
  apply (simp add: boot_def constructor_def exampleEnv_def start_def stop_def startPolling_def stopPolling_def
      Let_def logger_def emit_def call_def continue_def resumeDetect_def resumeEnrich_def
      processDiscs_begin_def processDiscs_end_def detectedDriveMap_def cleanup_def newDiscs_def
      markProcessed_def movieA_def withInfo_def)
  done

section \<open>The timer\<close>

lemma timers_stopPolling: "singleTimer s \<Longrightarrow> timers (stopPolling s) = []"
  by (simp add: singleTimer_def stopPolling_def call_def split: option.splits)

lemma singleTimer_stopPolling: "singleTimer s \<Longrightarrow> singleTimer (stopPolling s)"
  by (simp add: singleTimer_def fields_stopPolling timers_stopPolling)

lemma singleTimer_startPolling: "singleTimer s \<Longrightarrow> singleTimer (startPolling e s)"
  by (simp add: singleTimer_def startPolling_def Let_def call_def logger_def
        timers_stopPolling [unfolded singleTimer_def])

lemma singleTimer_frame:
  "timers s' = timers s \<Longrightarrow> pollInterval s' = pollInterval s \<Longrightarrow> singleTimer s' = singleTimer s"
  by (simp add: singleTimer_def)

lemma singleTimer_start: "singleTimer s \<Longrightarrow> singleTimer (start e s)"
proof (cases "isPolling s")
  case True
  then have "start e s = logger LInfo AlreadyRunning s" by (simp add: start_def)
  moreover assume "singleTimer s"
  ultimately show ?thesis by (simp add: singleTimer_def logger_def)
next
  case False
  assume st: "singleTimer s"
  have "singleTimer ((logger LInfo Starting s)\<lparr>isPolling := True\<rparr>)"
    using st by (simp add: singleTimer_def logger_def)
  then have "singleTimer (startPolling e ((logger LInfo Starting s)\<lparr>isPolling := True\<rparr>))"
    by (rule singleTimer_startPolling)
  with False show ?thesis by (simp add: start_def Let_def singleTimer_def emit_def)
qed

lemma singleTimer_stop: "singleTimer s \<Longrightarrow> singleTimer (stop s)"
proof (cases "isPolling s")
  case False
  moreover assume "singleTimer s"
  ultimately show ?thesis by (simp add: stop_def)
next
  case True
  assume st: "singleTimer s"
  have "singleTimer ((logger LInfo Stopping s)\<lparr>isPolling := False\<rparr>)"
    using st by (simp add: singleTimer_def logger_def)
  then have "singleTimer (stopPolling ((logger LInfo Stopping s)\<lparr>isPolling := False\<rparr>))"
    by (rule singleTimer_stopPolling)
  with True show ?thesis by (simp add: stop_def Let_def singleTimer_def emit_def)
qed

lemma added_startPolling:
  "pollInterval s = Some h \<Longrightarrow>
   added s (startPolling e s) =
     [ClearInterval h, Log LInfo (PollingStarted (autoRipPollInterval e * 1000)),
      SetInterval (nextTimer s) (autoRipPollInterval e * 1000)]"
  by (simp add: added_def startPolling_def stopPolling_def Let_def call_def logger_def)

lemma singleTimer_step:
  assumes "singleTimer (svc m)" and "step e a m = Some m'"
  shows "singleTimer (svc m')"
proof (cases a)
  case CallStart
  with assms show ?thesis by (auto simp: singleTimer_start)
next
  case CallStop
  with assms show ?thesis by (auto simp: singleTimer_stop)
next
  case (TimerFires h)
  with assms show ?thesis by (auto simp: singleTimer_def call_def split: if_splits)
next
  case (DetectSettles i r)
  with assms show ?thesis
    by (auto simp: singleTimer_def continue_def fields_resumeDetect
        split: if_splits task.splits option.splits)
next
  case (EnrichSettles i r)
  with assms show ?thesis
    by (auto simp: singleTimer_def continue_def fields_resumeEnrich
        split: if_splits task.splits option.splits)
next
  case (PipelineSettles i r)
  with assms show ?thesis
    by (auto simp: singleTimer_def continue_def fields_processDiscs_end
        split: if_splits task.splits option.splits)
qed

lemma singleTimer_run: "singleTimer (svc m) \<Longrightarrow> run e as m = Some m' \<Longrightarrow> singleTimer (svc m')"
proof (induction as arbitrary: m)
  case Nil
  then show ?case by simp
next
  case (Cons a as)
  then show ?case by (auto split: option.splits dest: singleTimer_step)
qed

text \<open>
  C9. The timers that are active are exactly the one \<open>pollInterval\<close> refers to (none
  when it is \<^verbatim>\<open>null\<close>): this holds of the new service, is kept by \<open>start\<close>, \<open>stop\<close>,
  \<open>startPolling\<close> and \<open>stopPolling\<close>, and so holds after every run of the service; in
  particular at most one timer is active. \<open>stopPolling\<close> leaves \<open>pollInterval\<close> at
  \<^verbatim>\<open>null\<close>, and \<open>startPolling\<close> clears an existing timer before it sets the new one.
\<close>

theorem single_timer_invariant:
  "singleTimer constructor \<and>
   (singleTimer s \<longrightarrow>
      singleTimer (start e s) \<and> singleTimer (stop s) \<and>
      singleTimer (startPolling e s) \<and> singleTimer (stopPolling s) \<and>
      length (timers s) \<le> 1) \<and>
   (run e as boot = Some m \<longrightarrow> singleTimer (svc m) \<and> length (timers (svc m)) \<le> 1) \<and>
   pollInterval (stopPolling s) = None \<and>
   (pollInterval s = Some h \<longrightarrow>
      added s (startPolling e s) =
        [ClearInterval h, Log LInfo (PollingStarted (autoRipPollInterval e * 1000)),
         SetInterval (nextTimer s) (autoRipPollInterval e * 1000)])"
proof (intro conjI impI)
  show "singleTimer constructor" by (simp add: singleTimer_def constructor_def)
  show "pollInterval (stopPolling s) = None" by (rule fields_stopPolling)
  show "length (timers s) \<le> 1" if "singleTimer s"
    using that by (simp add: singleTimer_def split: option.splits)
  assume "run e as boot = Some m"
  then show b: "singleTimer (svc m)"
    using singleTimer_run [of boot e as m] by (simp add: boot_def singleTimer_def constructor_def)
  then show "length (timers (svc m)) \<le> 1"
    by (simp add: singleTimer_def split: option.splits)
qed (simp_all add: singleTimer_start singleTimer_stop singleTimer_startPolling
       singleTimer_stopPolling added_startPolling)

theorem single_timer_invariant_witness:
  "singleTimer (start (exampleEnv None (Inr []) None) constructor) \<and>
   timers (startPolling (exampleEnv None (Inr []) None) (start (exampleEnv None (Inr []) None) constructor)) = [2] \<and>
   added (start (exampleEnv None (Inr []) None) constructor)
     (startPolling (exampleEnv None (Inr []) None) (start (exampleEnv None (Inr []) None) constructor))
     = [ClearInterval 1, Log LInfo (PollingStarted 5000), SetInterval 2 5000]"
  using single_timer_invariant [of constructor "exampleEnv None (Inr []) None" "[]" boot 1]
    single_timer_invariant [of "start (exampleEnv None (Inr []) None) constructor"
       "exampleEnv None (Inr []) None" "[]" boot 1]
  by (simp add: exampleEnv_def start_def constructor_def startPolling_def stopPolling_def
        Let_def logger_def emit_def call_def singleTimer_def)

section \<open>The gate\<close>

lemma tick_dropped: "truthy (currentOperation s) \<or> isChecking s \<Longrightarrow> tick e s = s"
  by (simp add: tick_def)

lemma gated_cases:
  assumes "gated m" and "i < length (pending m)"
  obtains t where "pending m = [t]" and "i = 0" and "isChecking (svc m)"
    and "currentOperation (svc m) = (if isAwaitPipeline t then Some ''processing'' else None)"
  using assms by (auto simp: gated_def split: list.splits)

lemma gated_empty:
  "gated m \<Longrightarrow> \<not> isChecking (svc m) \<Longrightarrow> pending m = [] \<and> currentOperation (svc m) = None"
  by (auto simp: gated_def split: list.splits)

lemma gated_step:
  assumes g: "gated m" and st: "step e a m = Some m'"
  shows "gated m'"
proof (cases a)
  case CallStart
  with g st show ?thesis by (auto simp: gated_def fields_start split: list.splits)
next
  case CallStop
  with g st show ?thesis by (auto simp: gated_def fields_stop split: list.splits)
next
  case (TimerFires h)
  show ?thesis
  proof (cases "truthy (currentOperation (svc m)) \<or> isChecking (svc m)")
    case True
    with TimerFires st g show ?thesis by (auto split: if_splits)
  next
    case False
    with g have "pending m = []" "currentOperation (svc m) = None"
      using gated_empty by blast+
    with False TimerFires st show ?thesis
      by (auto simp: gated_def call_def split: if_splits)
  qed
next
  case (DetectSettles i r)
  with st have i: "i < length (pending m)" by (auto split: if_splits)
  from g i obtain t where p: "pending m = [t]" and i0: "i = 0" and chk: "isChecking (svc m)"
    and op: "currentOperation (svc m) = (if isAwaitPipeline t then Some ''processing'' else None)"
    by (rule gated_cases)
  from DetectSettles st p i0 have t: "t = AwaitDetect"
    and m': "m' = continue 0 (resumeDetect r (svc m)) m"
    by (auto split: task.splits)
  show ?thesis
  proof (cases "snd (resumeDetect r (svc m))")
    case None
    with p t op m' show ?thesis
      by (simp add: continue_def gated_def fields_resumeDetect)
  next
    case (Some t')
    from task_resumeDetect [OF Some] have "\<not> isAwaitPipeline t'" .
    with p t op chk m' Some show ?thesis
      by (simp add: continue_def gated_def fields_resumeDetect)
  qed
next
  case (EnrichSettles i r)
  with st have i: "i < length (pending m)" by (auto split: if_splits)
  from g i obtain t where p: "pending m = [t]" and i0: "i = 0" and chk: "isChecking (svc m)"
    and op: "currentOperation (svc m) = (if isAwaitPipeline t then Some ''processing'' else None)"
    by (rule gated_cases)
  from EnrichSettles st p i0 obtain new where t: "t = AwaitEnrich new"
    and m': "m' = continue 0 (resumeEnrich e r (svc m)) m"
    by (auto split: task.splits)
  show ?thesis
  proof (cases "snd (resumeEnrich e r (svc m))")
    case None
    with p t op m' show ?thesis
      using operation_resumeEnrich [of e r "svc m"]
      by (simp add: continue_def gated_def fields_resumeEnrich)
  next
    case (Some t')
    from task_resumeEnrich [OF Some] have "isAwaitPipeline t'" .
    with p t op chk m' Some show ?thesis
      using operation_resumeEnrich [of e r "svc m"]
      by (simp add: continue_def gated_def fields_resumeEnrich)
  qed
next
  case (PipelineSettles i r)
  with st have i: "i < length (pending m)" by (auto split: if_splits)
  from g i obtain t where p: "pending m = [t]" and i0: "i = 0"
    by (rule gated_cases)
  from PipelineSettles st p i0 have m': "m' = continue 0 (processDiscs_end r (svc m), None) m"
    by (auto split: task.splits)
  with p show ?thesis
    by (simp add: continue_def gated_def fields_processDiscs_end)
qed

lemma gated_run: "gated m \<Longrightarrow> run e as m = Some m' \<Longrightarrow> gated m'"
proof (induction as arbitrary: m)
  case Nil
  then show ?case by simp
next
  case (Cons a as)
  then show ?case by (auto split: option.splits dest: gated_step)
qed

lemma gated_boot: "gated boot"
  by (simp add: gated_def boot_def constructor_def)

lemma gated_pending: "gated m \<Longrightarrow> length (pending m) \<le> 1"
  by (auto simp: gated_def split: list.splits)

lemma gated_flags:
  "gated m \<Longrightarrow> (truthy (currentOperation (svc m)) \<or> isChecking (svc m)) = (pending m \<noteq> [])"
  by (auto simp: gated_def split: list.splits)

text \<open>
  C4. While \<open>isChecking\<close> or \<open>currentOperation\<close> is set, a tick changes nothing: the
  callback returns the service as it is, with no event added and nothing left waiting
  (the tick is dropped, not queued). In every state the service reaches from its
  construction, by calls of \<^verbatim>\<open>start\<close> and \<^verbatim>\<open>stop\<close>, ticks of active timers and answers
  of the collaborators in any order, at most one callback is waiting (so at most one
  scan cycle and at most one processing run), and a flag is set exactly when one is.
\<close>

theorem ticks_do_not_overlap:
  "(truthy (currentOperation s) \<or> isChecking s \<longrightarrow> tick e s = s) \<and>
   (truthy (currentOperation (svc m)) \<or> isChecking (svc m) \<longrightarrow> h \<in> set (timers (svc m)) \<longrightarrow>
      step e (TimerFires h) m = Some m) \<and>
   (run e as boot = Some m' \<longrightarrow>
      length (pending m') \<le> 1 \<and>
      (truthy (currentOperation (svc m')) \<or> isChecking (svc m')) = (pending m' \<noteq> []))"
proof (intro conjI impI)
  assume "run e as boot = Some m'"
  then have g: "gated m'" using gated_boot gated_run by blast
  from g show "length (pending m') \<le> 1" by (rule gated_pending)
  from g show "(truthy (currentOperation (svc m')) \<or> isChecking (svc m')) = (pending m' \<noteq> [])"
    by (rule gated_flags)
qed (simp_all add: tick_dropped)

lemma run_waitingMachine:
  "run (exampleEnv None (Inr []) None) [CallStart, TimerFires 1] boot = Some waitingMachine"
  by (simp add: boot_def constructor_def exampleEnv_def start_def startPolling_def stopPolling_def
      Let_def logger_def emit_def call_def waitingMachine_def)

theorem ticks_do_not_overlap_witness:
  "run (exampleEnv None (Inr []) None) [CallStart, TimerFires 1] boot = Some waitingMachine \<and>
   isChecking (svc waitingMachine) \<and> 1 \<in> set (timers (svc waitingMachine)) \<and>
   step (exampleEnv None (Inr []) None) (TimerFires 1) waitingMachine = Some waitingMachine \<and>
   tick (exampleEnv None (Inr []) None) (svc waitingMachine) = svc waitingMachine \<and>
   length (pending waitingMachine) \<le> 1"
  using ticks_do_not_overlap [of "svc waitingMachine" "exampleEnv None (Inr []) None"
      waitingMachine 1 "[CallStart, TimerFires 1]" waitingMachine] run_waitingMachine
  by (simp add: waitingMachine_def)

section \<open>The maps of a scan cycle\<close>

lemma includesStr_sublist: "includesStr s sub = sublist sub s"
  by (induction s) (auto simp: sublist_Cons_right)

lemma detectedDriveMap_snoc:
  "detectedDriveMap (ds @ [x]) = (detectedDriveMap ds)(driveNumber x \<mapsto> title x)"
  by (simp add: detectedDriveMap_def)

lemma detectedDriveMap_Nil: "detectedDriveMap [] = Map.empty"
  by (simp add: detectedDriveMap_def)

lemma detectedDriveMap_defined:
  "x \<in> set ds \<Longrightarrow> detectedDriveMap ds (driveNumber x) \<noteq> None"
  by (induction ds rule: rev_induct) (auto simp: detectedDriveMap_snoc)

lemma detectedDriveMap_Some:
  "detectedDriveMap ds d = Some t \<Longrightarrow> \<exists>x\<in>set ds. driveNumber x = d \<and> title x = t"
  by (induction ds rule: rev_induct)
     (auto simp: detectedDriveMap_snoc detectedDriveMap_Nil split: if_splits)

lemma detectedDriveMap_None:
  "d \<notin> driveNumber ` set ds \<Longrightarrow> detectedDriveMap ds d = None"
  by (induction ds rule: rev_induct) (auto simp: detectedDriveMap_snoc detectedDriveMap_Nil)

lemma detectedDriveMap_distinct:
  "distinct (map driveNumber ds) \<Longrightarrow> x \<in> set ds \<Longrightarrow>
   detectedDriveMap ds (driveNumber x) = Some (title x)"
proof (induction ds rule: rev_induct)
  case Nil
  then show ?case by simp
next
  case (snoc y ys)
  show ?case
  proof (cases "x = y")
    case True
    then show ?thesis by (simp add: detectedDriveMap_snoc)
  next
    case False
    with snoc.prems have "x \<in> set ys" and "driveNumber y \<notin> driveNumber ` set ys"
      by auto
    then have "driveNumber x \<noteq> driveNumber y" by (metis imageI)
    with snoc \<open>x \<in> set ys\<close> show ?thesis by (simp add: detectedDriveMap_snoc)
  qed
qed

lemma detectedDriveMap_filter:
  "detectedDriveMap (filter (\<lambda>x. Q (driveNumber x)) ds) d =
     (if Q d then detectedDriveMap ds d else None)"
  by (induction ds rule: rev_induct) (auto simp: detectedDriveMap_snoc detectedDriveMap_Nil)

lemma detectedDriveMap_map_of:
  "detectedDriveMap ds = map_of (rev (map (\<lambda>d. (driveNumber d, title d)) ds))"
  by (induction ds rule: rev_induct) (auto simp: detectedDriveMap_snoc detectedDriveMap_Nil)

lemma detectedDriveMap_sameDiscs:
  "sameDiscs xs ys \<Longrightarrow> detectedDriveMap xs = detectedDriveMap ys"
  by (simp add: detectedDriveMap_map_of sameDiscs_def)

lemma markProcessed_snoc:
  "markProcessed (items @ [x]) m = (markProcessed items m)(driveNumber x \<mapsto> title x)"
  by (simp add: markProcessed_def)

lemma markProcessed_Nil: "markProcessed [] m = m"
  by (simp add: markProcessed_def)

lemma markProcessed_add: "markProcessed items m = m ++ detectedDriveMap items"
proof (induction items rule: rev_induct)
  case Nil
  show ?case by (simp add: markProcessed_Nil detectedDriveMap_Nil)
next
  case (snoc x xs)
  show ?case
    by (simp only: markProcessed_snoc detectedDriveMap_snoc snoc.IH map_add_upd)
qed

lemma markProcessed_lookup:
  "markProcessed items m d =
     (case detectedDriveMap items d of None \<Rightarrow> m d | Some t \<Rightarrow> Some t)"
  by (simp add: markProcessed_add map_add_def)

lemma cleanup_lookup:
  "cleanup dm processed d = (if processed d \<noteq> None \<and> dm d = processed d then processed d else None)"
  by (auto simp: cleanup_def split: option.splits)

lemma cleanupLoop_Cons:
  "cleanupLoop dm ((k, v) # es) m =
     cleanupLoop dm es (if dm k = None \<or> dm k \<noteq> Some v then m(k := None) else m)"
  by (simp add: cleanupLoop_def)

lemma cleanupLoop_lookup:
  "distinct (map fst es) \<Longrightarrow>
   cleanupLoop dm es m d =
     (case map_of es d of None \<Rightarrow> m d | Some t \<Rightarrow> if dm d \<noteq> Some t then None else m d)"
proof (induction es arbitrary: m)
  case Nil
  show ?case by (simp add: cleanupLoop_def)
next
  case (Cons kv es)
  obtain k v where kv: "kv = (k, v)" by (cases kv)
  from Cons.prems kv have k: "map_of es k = None" and dist: "distinct (map fst es)"
    by (auto simp: map_of_eq_None_iff)
  show ?case
    using k by (auto simp: kv cleanupLoop_Cons Cons.IH [OF dist] split: option.splits)
qed

lemma cleanupLoop_cleanup:
  assumes "distinct (map fst es)" and "map_of es = processed"
  shows "cleanupLoop dm es processed = cleanup dm processed"
proof (rule ext)
  fix d
  show "cleanupLoop dm es processed d = cleanup dm processed d"
    using assms(2) by (auto simp: cleanupLoop_lookup [OF assms(1)] cleanup_lookup split: option.splits)
qed

lemma newDiscs_mem:
  "x \<in> set (newDiscs ds processed) = (x \<in> set ds \<and> processed (driveNumber x) = None)"
  by (auto simp: newDiscs_def)

lemma cleanup_le: "cleanup dm processed d = Some t \<Longrightarrow> processed d = Some t"
  by (simp add: cleanup_lookup split: if_splits)

section \<open>What a scan cycle does\<close>

lemma fields_checkDrives:
  "currentOperation (checkDrives e s) = (if cycleBatch e s = [] then currentOperation s else None)"
  "isPolling (checkDrives e s) = isPolling s"
  "pollInterval (checkDrives e s) = pollInterval s"
  "timers (checkDrives e s) = timers s"
  "isChecking (checkDrives e s) = isChecking s"
  by (simp_all add: checkDrives_def checkDrives_enriched_def processDiscs_def Let_def
        cycleBatch_def cycleNew_def
        fields_checkDrives_catch fields_processDiscs_begin fields_processDiscs_end
        call_def logger_def split: sum.splits)

lemma processedDiscs_checkDrives:
  "processedDiscs (checkDrives e s) =
     (case detectAvailableDiscs e of
        Inl err \<Rightarrow> processedDiscs s
      | Inr ds \<Rightarrow>
          markProcessed (cycleBatch e s) (cleanup (detectedDriveMap ds) (processedDiscs s)))"
  by (simp add: checkDrives_def checkDrives_enriched_def processDiscs_def Let_def
        cycleBatch_def cycleNew_def markProcessed_Nil
        fields_checkDrives_catch fields_processDiscs_begin fields_processDiscs_end
        call_def logger_def split: sum.splits)

lemma trace_checkDrives_catch:
  "trace (checkDrives_catch err s) =
     trace s @ (if message err \<noteq> [] \<and> \<not> includesStr (message err) ''executable not found''
                then [Log LWarning (PollingWarning (message err))] else [])"
  by (simp add: checkDrives_catch_def trace_logger)

text \<open>The events of one scan cycle, case by case.\<close>

lemma added_checkDrives:
  "added s (checkDrives e s) =
     DetectAvailableDiscs #
     (case detectAvailableDiscs e of
        Inl err \<Rightarrow> added s (checkDrives_catch err s)
      | Inr ds \<Rightarrow>
          if cycleNew e s = [] then []
          else [Log LInfo (DetectedNew (length (cycleNew e s))), GetCompleteDiscInfo (cycleNew e s)] @
            (case getCompleteDiscInfo e (cycleNew e s) of
               Inl err \<Rightarrow> added s (checkDrives_catch err s)
             | Inr items \<Rightarrow>
                 Log LInfo (StartingProcessing (length items)) #
                 (if items = [] then []
                  else [Emit ''processing'', pipelineCall e items] @
                    (case pipelineOutcome e items of
                       Some err \<Rightarrow> [Log LError (ProcessingFailed err)] | None \<Rightarrow> []) @
                    [Emit ''scanning''])))"
  by (simp add: added_def checkDrives_def checkDrives_enriched_def processDiscs_def Let_def
        cycleNew_def trace_checkDrives_catch trace_processDiscs_begin trace_processDiscs_end
        trace_call trace_logger call_def logger_def split: sum.splits option.splits)

lemma isPipelineCall_pipelineCall: "isPipelineCall (pipelineCall e b)"
  by (simp add: pipelineCall_def)

lemma batchOf_pipelineCall: "batchOf (pipelineCall e b) = b"
  by (simp add: pipelineCall_def)

lemma cycleBatch_cases:
  "cycleBatch e s = [] \<or> getCompleteDiscInfo e (cycleNew e s) = Inr (cycleBatch e s)"
  by (simp add: cycleBatch_def split: sum.splits)

lemma added_checkDrives_catch_filters:
  "filter isPipelineCall (added s (checkDrives_catch err s)) = []"
  "filter isEnrichCall (added s (checkDrives_catch err s)) = []"
  "filter (isLogAt LError) (added s (checkDrives_catch err s)) = []"
  "filter (isLogAt LWarning) (added s (checkDrives_catch err s)) =
     (if message err \<noteq> [] \<and> \<not> includesStr (message err) ''executable not found''
      then [Log LWarning (PollingWarning (message err))] else [])"
  by (simp_all add: added_def trace_checkDrives_catch)

lemma pipelineCalls_checkDrives:
  "filter isPipelineCall (added s (checkDrives e s)) =
     (if cycleBatch e s = [] then [] else [pipelineCall e (cycleBatch e s)])"
  by (simp add: added_checkDrives added_checkDrives_catch_filters cycleBatch_def
        isPipelineCall_pipelineCall cycleNew_def split: sum.splits option.splits)

lemma enrichCalls_checkDrives:
  "filter isEnrichCall (added s (checkDrives e s)) =
     (if cycleNew e s = [] then [] else [GetCompleteDiscInfo (cycleNew e s)])"
  by (simp add: added_checkDrives added_checkDrives_catch_filters pipelineCall_def cycleNew_def
        split: sum.splits option.splits)

lemma warnings_checkDrives:
  "filter (isLogAt LWarning) (added s (checkDrives e s)) =
     (case cycleError e s of
        None \<Rightarrow> []
      | Some err \<Rightarrow>
          if message err \<noteq> [] \<and> \<not> includesStr (message err) ''executable not found''
          then [Log LWarning (PollingWarning (message err))] else [])"
  by (simp add: added_checkDrives added_checkDrives_catch_filters pipelineCall_def cycleError_def
        cycleNew_def split: sum.splits option.splits)

lemma errors_checkDrives:
  "cycleError e s = Some err \<Longrightarrow> filter (isLogAt LError) (added s (checkDrives e s)) = []"
  by (auto simp add: added_checkDrives added_checkDrives_catch_filters pipelineCall_def cycleError_def
        cycleNew_def split: sum.splits option.splits if_splits)

lemma cycleBatch_error: "cycleError e s = Some err \<Longrightarrow> cycleBatch e s = []"
  by (auto simp: cycleError_def cycleBatch_def cycleNew_def split: sum.splits if_splits)

lemma checkDrives_isChecking:
  "checkDrives e (s\<lparr>isChecking := b\<rparr>) = (checkDrives e s)\<lparr>isChecking := b\<rparr>"
  by (simp add: checkDrives_def checkDrives_enriched_def checkDrives_catch_def processDiscs_def
        processDiscs_begin_def processDiscs_end_def Let_def call_def logger_def emit_def
        split: sum.splits option.splits)

lemma tick_checkDrives:
  "\<not> truthy (currentOperation s) \<Longrightarrow> \<not> isChecking s \<Longrightarrow>
   tick e s = (checkDrives e s)\<lparr>isChecking := False\<rparr>"
  by (simp add: tick_def Let_def checkDrives_isChecking)

lemma added_isChecking: "added s (s'\<lparr>isChecking := b\<rparr>) = added s s'"
  by (simp add: added_def)

lemma cycleNew_mem:
  "detectAvailableDiscs e = Inr ds \<Longrightarrow>
   x \<in> set (cycleNew e s) =
     (x \<in> set ds \<and> cleanup (detectedDriveMap ds) (processedDiscs s) (driveNumber x) = None)"
  by (simp add: cycleNew_def newDiscs_mem)

lemma pipelineCall_checkDrives_batch:
  assumes "ev \<in> set (added s (checkDrives e s))" and "isPipelineCall ev"
  shows "getCompleteDiscInfo e (cycleNew e s) = Inr (batchOf ev)"
proof -
  from assms have "ev \<in> set (filter isPipelineCall (added s (checkDrives e s)))" by simp
  then have "cycleBatch e s \<noteq> []" and "ev = pipelineCall e (cycleBatch e s)"
    by (auto simp: pipelineCalls_checkDrives split: if_splits)
  then show ?thesis
    using cycleBatch_cases [of e s] by (simp add: batchOf_pipelineCall)
qed

lemma enrichCall_checkDrives_new:
  assumes "GetCompleteDiscInfo new \<in> set (added s (checkDrives e s))"
  shows "new = cycleNew e s"
proof -
  from assms have "GetCompleteDiscInfo new \<in> set (filter isEnrichCall (added s (checkDrives e s)))"
    by simp
  then show ?thesis by (auto simp: enrichCalls_checkDrives split: if_splits)
qed

lemma added_checkDrives_settled:
  assumes "detectAvailableDiscs e = Inr ds"
    and "\<forall>y\<in>set ds. processedDiscs s (driveNumber y) = detectedDriveMap ds (driveNumber y)"
  shows "cycleNew e s = []" and "added s (checkDrives e s) = [DetectAvailableDiscs]"
proof -
  have "cleanup (detectedDriveMap ds) (processedDiscs s) (driveNumber y) \<noteq> None"
    if "y \<in> set ds" for y
    using that assms(2) detectedDriveMap_defined [of y ds] by (simp add: cleanup_lookup)
  then have "x \<notin> set (cycleNew e s)" for x
    by (simp add: cycleNew_mem [OF assms(1)])
  then show "cycleNew e s = []" by (cases "cycleNew e s") auto
  then show "added s (checkDrives e s) = [DetectAvailableDiscs]"
    using assms(1) by (simp add: added_checkDrives)
qed

section \<open>Errors of the inventory\<close>

text \<open>
  C6, as amended. When a call of the inventory fails inside the scan cycle of a tick (the
  detection, or the enrichment of the new discs), the tick ends with \<open>isChecking\<close>
  cleared and \<open>currentOperation\<close> as it was, no entry is added to \<open>processedDiscs\<close>, no
  pipeline is called and nothing is logged as an error (the error does not leave
  \<open>checkDrives\<close>). One warning with the message of the error is logged exactly when
  that message is not empty and does not contain \<^verbatim>\<open>executable not found\<close>; otherwise no
  warning is logged.
\<close>

theorem scan_error_handled:
  assumes "cycleError e s = Some err" and "\<not> truthy (currentOperation s)" and "\<not> isChecking s"
  shows "\<not> isChecking (tick e s) \<and>
         currentOperation (tick e s) = currentOperation s \<and>
         (\<forall>d t. processedDiscs (tick e s) d = Some t \<longrightarrow> processedDiscs s d = Some t) \<and>
         filter isPipelineCall (added s (tick e s)) = [] \<and>
         filter (isLogAt LError) (added s (tick e s)) = [] \<and>
         filter (isLogAt LWarning) (added s (tick e s)) =
           (if message err \<noteq> [] \<and> \<not> includesStr (message err) ''executable not found''
            then [Log LWarning (PollingWarning (message err))] else [])"
proof -
  have t: "tick e s = (checkDrives e s)\<lparr>isChecking := False\<rparr>"
    using assms(2,3) by (rule tick_checkDrives)
  have b: "cycleBatch e s = []" using assms(1) by (rule cycleBatch_error)
  have "processedDiscs s d = Some t'" if "processedDiscs (checkDrives e s) d = Some t'" for d t'
    using that b
    by (auto simp: processedDiscs_checkDrives markProcessed_Nil split: sum.splits dest: cleanup_le)
  then show ?thesis
    using assms(1) b
    by (simp add: t added_isChecking fields_checkDrives pipelineCalls_checkDrives
          errors_checkDrives warnings_checkDrives)
qed

theorem scan_error_handled_witness:
  "cycleError (exampleEnv None (Inl (JsError ''drive busy'')) None) constructor
     = Some (JsError ''drive busy'') \<and>
   filter (isLogAt LWarning)
     (added constructor (tick (exampleEnv None (Inl (JsError ''drive busy'')) None) constructor))
     = [Log LWarning (PollingWarning ''drive busy'')] \<and>
   \<not> isChecking (tick (exampleEnv None (Inl (JsError ''drive busy'')) None) constructor) \<and>
   cycleError (exampleEnv None (Inl (JsError ''MakeMKV executable not found'')) None) constructor
     = Some (JsError ''MakeMKV executable not found'') \<and>
   filter (isLogAt LWarning)
     (added constructor
        (tick (exampleEnv None (Inl (JsError ''MakeMKV executable not found'')) None) constructor))
     = []"
proof -
  have c1: "cycleError (exampleEnv None (Inl (JsError ''drive busy'')) None) constructor
              = Some (JsError ''drive busy'')"
    by (simp add: cycleError_def exampleEnv_def)
  have c2: "cycleError (exampleEnv None (Inl (JsError ''MakeMKV executable not found'')) None)
              constructor = Some (JsError ''MakeMKV executable not found'')"
    by (simp add: cycleError_def exampleEnv_def)
  have g: "\<not> truthy (currentOperation constructor)" "\<not> isChecking constructor"
    by (simp_all add: constructor_def)
  show ?thesis
    using scan_error_handled [OF c1 g] scan_error_handled [OF c2 g] c1 c2
    by simp
qed

text \<open>
  C6 as stated fails: an error with an empty message does not name the executable, and
  yet no warning is logged for it.
\<close>

theorem warning_unless_executable_counterexample:
  "cycleError (exampleEnv None (Inl (JsError [])) None) constructor = Some (JsError []) \<and>
   \<not> includesStr (message (JsError [])) ''executable not found'' \<and>
   filter (isLogAt LWarning)
     (added constructor (tick (exampleEnv None (Inl (JsError [])) None) constructor)) = []"
proof -
  have c: "cycleError (exampleEnv None (Inl (JsError [])) None) constructor = Some (JsError [])"
    by (simp add: cycleError_def exampleEnv_def)
  have t: "tick (exampleEnv None (Inl (JsError [])) None) constructor =
             (checkDrives (exampleEnv None (Inl (JsError [])) None) constructor)\<lparr>isChecking := False\<rparr>"
    by (rule tick_checkDrives) (simp_all add: constructor_def)
  show ?thesis
    by (simp add: c t added_isChecking warnings_checkDrives)
qed

section \<open>Idempotency of the scan cycle\<close>

text \<open>
  C1. Let a scan cycle detect, in a snapshot that lists each drive once, a disc whose
  title is the entry of its drive in \<open>processedDiscs\<close>. Then the cycle selects no disc
  of that drive as new, whatever the rest of the map and of the snapshot: the
  enrichment, if it is called at all, is called without it, and a pipeline call, if
  there is one, is given what the enrichment returned for those other discs. When every
  detected disc is tracked in this way, the cycle calls neither the enrichment nor a
  pipeline: the detection is its only event.
\<close>

theorem scan_idempotent:
  assumes "detectAvailableDiscs e = Inr ds" and "distinct (map driveNumber ds)"
    and "x \<in> set ds" and "processedDiscs s (driveNumber x) = Some (title x)"
  shows "(\<forall>y\<in>set (cycleNew e s). driveNumber y \<noteq> driveNumber x) \<and>
         (\<forall>new. GetCompleteDiscInfo new \<in> set (added s (checkDrives e s)) \<longrightarrow>
                (\<forall>y\<in>set new. driveNumber y \<noteq> driveNumber x)) \<and>
         (\<forall>ev\<in>set (added s (checkDrives e s)). isPipelineCall ev \<longrightarrow>
                (\<exists>new. getCompleteDiscInfo e new = Inr (batchOf ev) \<and>
                       (\<forall>y\<in>set new. driveNumber y \<noteq> driveNumber x))) \<and>
         ((\<forall>y\<in>set ds. processedDiscs s (driveNumber y) = Some (title y)) \<longrightarrow>
            added s (checkDrives e s) = [DetectAvailableDiscs])"
proof (intro conjI allI ballI impI)
  have seen: "detectedDriveMap ds (driveNumber y) = Some (title y)" if "y \<in> set ds" for y
    using assms(2) that by (rule detectedDriveMap_distinct)
  have kept: "cleanup (detectedDriveMap ds) (processedDiscs s) (driveNumber x) = Some (title x)"
    using assms(4) seen [OF assms(3)] by (simp add: cleanup_lookup)
  show new: "driveNumber y \<noteq> driveNumber x" if "y \<in> set (cycleNew e s)" for y
  proof
    assume "driveNumber y = driveNumber x"
    with that kept show False by (simp add: cycleNew_mem [OF assms(1)])
  qed
  show "driveNumber y \<noteq> driveNumber x"
    if "GetCompleteDiscInfo new \<in> set (added s (checkDrives e s))" and "y \<in> set new" for new y
    using that new enrichCall_checkDrives_new [OF that(1)] by simp
  show "\<exists>new. getCompleteDiscInfo e new = Inr (batchOf ev) \<and>
              (\<forall>y\<in>set new. driveNumber y \<noteq> driveNumber x)"
    if "ev \<in> set (added s (checkDrives e s))" and "isPipelineCall ev" for ev
  proof (intro exI conjI ballI)
    show "getCompleteDiscInfo e (cycleNew e s) = Inr (batchOf ev)"
      using that by (rule pipelineCall_checkDrives_batch)
    show "driveNumber y \<noteq> driveNumber x" if "y \<in> set (cycleNew e s)" for y
      using that by (rule new)
  qed
  show "added s (checkDrives e s) = [DetectAvailableDiscs]"
    if t: "\<forall>y\<in>set ds. processedDiscs s (driveNumber y) = Some (title y)"
  proof (rule added_checkDrives_settled(2) [OF assms(1)])
    show "\<forall>y\<in>set ds. processedDiscs s (driveNumber y) = detectedDriveMap ds (driveNumber y)"
      using t seen by simp
  qed
qed

theorem scan_idempotent_witness:
  "distinct (map driveNumber [movieA]) \<and> movieA \<in> set [movieA] \<and>
   processedDiscs trackedA (driveNumber movieA) = Some (title movieA) \<and>
   added trackedA (checkDrives (exampleEnv None (Inr [movieA]) None) trackedA)
     = [DetectAvailableDiscs]"
proof -
  have d: "detectAvailableDiscs (exampleEnv None (Inr [movieA]) None) = Inr [movieA]"
    by (simp add: exampleEnv_def)
  have u: "distinct (map driveNumber [movieA])" by simp
  have m: "movieA \<in> set [movieA]" by simp
  have p: "processedDiscs trackedA (driveNumber movieA) = Some (title movieA)"
    by (simp add: trackedA_def movieA_def)
  have a: "\<forall>y\<in>set [movieA]. processedDiscs trackedA (driveNumber y) = Some (title y)"
    using p by simp
  show ?thesis
    using scan_idempotent [OF d u m p] u m p a by blast
qed

section \<open>Mark before work\<close>

lemma processedDiscs_processDiscs:
  "items \<noteq> [] \<Longrightarrow>
   processedDiscs (processDiscs e (Some items) s) = markProcessed items (processedDiscs s)"
  by (simp add: processDiscs_def fields_processDiscs_begin fields_processDiscs_end)

text \<open>
  C2, as amended. For a non-empty batch, the pipeline call is the last event of the first
  half of \<open>processDiscs\<close>, and by then every record of the batch has been written to
  \<open>processedDiscs\<close>: the map holds the title of every batch record that is the last one
  the batch lists for its drive (every record, when the batch lists each drive once).
  Whatever the pipeline answers, the second half leaves \<open>processedDiscs\<close> as it is, so
  the entries are still there after a failure. A scan cycle that runs on
  \<open>processedDiscs\<close> as the marks left it (before or after the pipeline call returns)
  selects no disc of a batch drive as new, and asks no enrichment for it, as long as the
  snapshot reports for that drive the title that was marked.
\<close>

theorem mark_before_work:
  assumes "items \<noteq> []"
  shows "trace (processDiscs_begin e items s) =
           trace s @ [Emit ''processing'', pipelineCall e items] \<and>
         (\<forall>x\<in>set items. detectedDriveMap items (driveNumber x) = Some (title x) \<longrightarrow>
            processedDiscs (processDiscs_begin e items s) (driveNumber x) = Some (title x)) \<and>
         processedDiscs (processDiscs_end outcome (processDiscs_begin e items s)) =
           processedDiscs (processDiscs_begin e items s) \<and>
         processedDiscs (processDiscs e (Some items) s) =
           processedDiscs (processDiscs_begin e items s) \<and>
         (\<forall>x\<in>set items. \<forall>y\<in>set ds.
            detectAvailableDiscs e' = Inr ds \<and>
            processedDiscs s' = processedDiscs (processDiscs_begin e items s) \<and>
            driveNumber y = driveNumber x \<and>
            detectedDriveMap items (driveNumber x) = Some (title x) \<and>
            detectedDriveMap ds (driveNumber x) = Some (title x) \<longrightarrow>
            y \<notin> set (cycleNew e' s') \<and>
            (\<forall>new. GetCompleteDiscInfo new \<in> set (added s' (checkDrives e' s')) \<longrightarrow>
                   y \<notin> set new))"
proof (intro conjI ballI impI allI)
  show "trace (processDiscs_begin e items s) = trace s @ [Emit ''processing'', pipelineCall e items]"
    by (rule trace_processDiscs_begin)
  show "processedDiscs (processDiscs_begin e items s) (driveNumber x) = Some (title x)"
    if "detectedDriveMap items (driveNumber x) = Some (title x)" for x :: disc
    using that by (simp add: fields_processDiscs_begin markProcessed_lookup)
  show "processedDiscs (processDiscs_end outcome (processDiscs_begin e items s)) =
          processedDiscs (processDiscs_begin e items s)"
    by (simp add: fields_processDiscs_end)
  show "processedDiscs (processDiscs e (Some items) s) =
          processedDiscs (processDiscs_begin e items s)"
    using assms by (simp add: processedDiscs_processDiscs fields_processDiscs_begin)
next
  fix x y :: disc
  assume h: "detectAvailableDiscs e' = Inr ds \<and>
            processedDiscs s' = processedDiscs (processDiscs_begin e items s) \<and>
            driveNumber y = driveNumber x \<and>
            detectedDriveMap items (driveNumber x) = Some (title x) \<and>
            detectedDriveMap ds (driveNumber x) = Some (title x)"
  then have "processedDiscs s' (driveNumber x) = Some (title x)"
    by (simp add: fields_processDiscs_begin markProcessed_lookup)
  with h have "cleanup (detectedDriveMap ds) (processedDiscs s') (driveNumber y) = Some (title x)"
    by (simp add: cleanup_lookup)
  with h show n: "y \<notin> set (cycleNew e' s')"
    by (simp add: cycleNew_mem)
  show "y \<notin> set new" if "GetCompleteDiscInfo new \<in> set (added s' (checkDrives e' s'))" for new
    using enrichCall_checkDrives_new [OF that] n by simp
qed

lemma processedDiscs_failedA: "processedDiscs failedA = [1 \<mapsto> ''Movie A'']"
  by (simp add: failedA_def processedDiscs_processDiscs markProcessed_def withInfo_def movieA_def
        constructor_def)

lemma processedDiscs_ejectedA: "processedDiscs ejectedA = Map.empty"
  by (rule ext)
     (simp add: ejectedA_def processedDiscs_checkDrives exampleEnv_def cycleBatch_def cycleNew_def
        newDiscs_def markProcessed_Nil cleanup_lookup detectedDriveMap_Nil)

theorem mark_before_work_witness:
  "processedDiscs failedA (driveNumber (withInfo movieA)) = Some (title (withInfo movieA)) \<and>
   movieA \<notin> set (cycleNew (exampleEnv None (Inr [movieA]) None) failedA)"
proof -
  have i: "[withInfo movieA] \<noteq> []" by simp
  have d: "detectAvailableDiscs (exampleEnv None (Inr [movieA]) None) = Inr [movieA]"
    by (simp add: exampleEnv_def)
  have m: "detectedDriveMap [withInfo movieA] (driveNumber (withInfo movieA))
             = Some (title (withInfo movieA))"
    by (simp add: detectedDriveMap_def)
  have o: "detectedDriveMap [movieA] (driveNumber (withInfo movieA))
             = Some (title (withInfo movieA))"
    by (simp add: detectedDriveMap_def withInfo_def)
  have k: "driveNumber movieA = driveNumber (withInfo movieA)"
    by (simp add: withInfo_def)
  note w = mark_before_work [OF i,
      of "exampleEnv None (Inr []) (Some (JsError ''disk full''))" constructor
         "Some (JsError ''disk full'')" "[movieA]" "exampleEnv None (Inr [movieA]) None" failedA]
  from w have p: "processedDiscs failedA =
      processedDiscs (processDiscs_begin (exampleEnv None (Inr []) (Some (JsError ''disk full'')))
         [withInfo movieA] constructor)"
    by (simp add: failedA_def)
  from w m have "processedDiscs failedA (driveNumber (withInfo movieA))
                   = Some (title (withInfo movieA))"
    by (simp add: p)
  moreover from w d p k m o
  have "movieA \<notin> set (cycleNew (exampleEnv None (Inr [movieA]) None) failedA)"
    by simp
  ultimately show ?thesis by simp
qed

text \<open>
  C2 as stated fails for the scan cycles that come later: after the dispatch of
  \<open>movieA\<close> (here with a failing pipeline), one scan cycle that finds the drive empty
  deletes the entry, and the next one that finds \<open>movieA\<close> again selects it as new,
  enriches it and dispatches it. It also fails for a batch that lists a drive twice:
  after the failed pipeline call the entry of drive 1 is the title listed last, not the
  title of the first record.
\<close>

theorem mark_before_work_counterexample:
  "processedDiscs failedA (driveNumber movieA) = Some (title movieA) \<and>
   added ejectedA (checkDrives (exampleEnv None (Inr [movieA]) None) ejectedA) =
     [DetectAvailableDiscs, Log LInfo (DetectedNew 1), GetCompleteDiscInfo [movieA],
      Log LInfo (StartingProcessing 1), Emit ''processing'',
      ProcessRippingQueue [withInfo movieA], Emit ''scanning''] \<and>
   processedDiscs
     (processDiscs (exampleEnv None (Inr []) (Some (JsError ''disk full'')))
        (Some [withInfo movieA, withInfo movieB]) constructor) (driveNumber (withInfo movieA))
     = Some ''Movie B'' \<and>
   title (withInfo movieA) = ''Movie A''"
proof -
  have n: "cycleNew (exampleEnv None (Inr [movieA]) None) ejectedA = [movieA]"
    by (simp add: cycleNew_def processedDiscs_ejectedA newDiscs_def cleanup_def exampleEnv_def)
  have "added ejectedA (checkDrives (exampleEnv None (Inr [movieA]) None) ejectedA) =
     [DetectAvailableDiscs, Log LInfo (DetectedNew 1), GetCompleteDiscInfo [movieA],
      Log LInfo (StartingProcessing 1), Emit ''processing'',
      ProcessRippingQueue [withInfo movieA], Emit ''scanning'']"
    unfolding added_checkDrives n
    by (simp add: exampleEnv_def pipelineCall_def pipelineOutcome_def)
  moreover have "processedDiscs
     (processDiscs (exampleEnv None (Inr []) (Some (JsError ''disk full'')))
        (Some [withInfo movieA, withInfo movieB]) constructor) (driveNumber (withInfo movieA))
     = Some ''Movie B''"
    by (simp add: processedDiscs_processDiscs markProcessed_def withInfo_def movieA_def movieB_def)
  ultimately show ?thesis
    by (simp add: processedDiscs_failedA movieA_def withInfo_def)
qed

section \<open>Cleanup and reconsideration\<close>

lemma take_trace_checkDrives: "take (length (trace s)) (trace (checkDrives e s)) = trace s"
  by (simp add: checkDrives_def checkDrives_enriched_def processDiscs_def Let_def
        trace_checkDrives_catch trace_processDiscs_begin trace_processDiscs_end
        trace_call trace_logger call_def logger_def split: sum.splits option.splits)

lemma trace_checkDrives: "trace (checkDrives e s) = trace s @ added s (checkDrives e s)"
  using append_take_drop_id [of "length (trace s)" "trace (checkDrives e s)"]
  by (simp add: added_def take_trace_checkDrives)

lemma cleanup_idem: "cleanup dm dm = dm"
  by (rule ext) (simp add: cleanup_lookup)

lemma checkDrives_settled:
  assumes "detectAvailableDiscs e = Inr ds" and "processedDiscs s = detectedDriveMap ds"
  shows "trace (checkDrives e s) = trace s @ [DetectAvailableDiscs]"
    and "processedDiscs (checkDrives e s) = detectedDriveMap ds"
proof -
  have a: "\<forall>y\<in>set ds. processedDiscs s (driveNumber y) = detectedDriveMap ds (driveNumber y)"
    using assms(2) by simp
  from added_checkDrives_settled(2) [OF assms(1) a]
  show "trace (checkDrives e s) = trace s @ [DetectAvailableDiscs]"
    using trace_checkDrives [of e s] by simp
  from added_checkDrives_settled(1) [OF assms(1) a]
  have "cycleBatch e s = []" by (simp add: cycleBatch_def)
  then show "processedDiscs (checkDrives e s) = detectedDriveMap ds"
    using assms by (simp add: processedDiscs_checkDrives markProcessed_Nil cleanup_idem)
qed

lemma checkDrives_settled_funpow:
  assumes "detectAvailableDiscs e = Inr ds" and "processedDiscs s = detectedDriveMap ds"
  shows "trace ((checkDrives e ^^ n) s) = trace s @ replicate n DetectAvailableDiscs \<and>
         processedDiscs ((checkDrives e ^^ n) s) = detectedDriveMap ds"
proof (induction n)
  case 0
  show ?case using assms(2) by simp
next
  case (Suc n)
  then show ?case
    using checkDrives_settled [OF assms(1), of "(checkDrives e ^^ n) s"]
    by (simp add: replicate_append_same)
qed

lemma cycleBatch_enriched:
  "cycleNew e s \<noteq> [] \<Longrightarrow> getCompleteDiscInfo e (cycleNew e s) = Inr items \<Longrightarrow>
   cycleBatch e s = items"
  by (simp add: cycleBatch_def)

lemma processedDiscs_after_dispatch:
  assumes det: "detectAvailableDiscs e = Inr ds"
    and en: "getCompleteDiscInfo e (cycleNew e s) = Inr items"
    and same: "sameDiscs items (cycleNew e s)"
    and ne: "cycleNew e s \<noteq> []"
  shows "processedDiscs (checkDrives e s) = detectedDriveMap ds"
proof (rule ext)
  fix d
  let ?c = "cleanup (detectedDriveMap ds) (processedDiscs s)"
  have "detectedDriveMap items = detectedDriveMap (cycleNew e s)"
    using same by (rule detectedDriveMap_sameDiscs)
  also have "\<dots> = detectedDriveMap (filter (\<lambda>x. ?c (driveNumber x) = None) ds)"
    using det by (simp add: cycleNew_def newDiscs_def)
  finally have i: "detectedDriveMap items d = (if ?c d = None then detectedDriveMap ds d else None)"
    using detectedDriveMap_filter [of "\<lambda>d. ?c d = None" ds d] by simp
  have p: "processedDiscs (checkDrives e s) d =
          (case detectedDriveMap items d of None \<Rightarrow> ?c d | Some t \<Rightarrow> Some t)"
    using det cycleBatch_enriched [OF ne en]
    by (simp add: processedDiscs_checkDrives markProcessed_lookup)
  show "processedDiscs (checkDrives e s) d = detectedDriveMap ds d"
  proof (cases "?c d")
    case None
    with i p show ?thesis by (simp split: option.splits)
  next
    case (Some t)
    then have "detectedDriveMap ds d = Some t"
      by (simp add: cleanup_lookup split: if_splits)
    with Some i p show ?thesis by simp
  qed
qed

lemma dispatched_once:
  assumes det: "detectAvailableDiscs e = Inr ds"
    and en: "getCompleteDiscInfo e (cycleNew e s) = Inr items"
    and same: "sameDiscs items (cycleNew e s)"
    and ne: "cycleNew e s \<noteq> []"
  shows "filter isPipelineCall (added s ((checkDrives e ^^ Suc n) s)) = [pipelineCall e items]"
proof -
  have items: "items \<noteq> []"
    using same ne by (auto simp: sameDiscs_def)
  have t: "processedDiscs (checkDrives e s) = detectedDriveMap ds"
    using det en same ne by (rule processedDiscs_after_dispatch)
  have "trace ((checkDrives e ^^ Suc n) s) =
          trace (checkDrives e s) @ replicate n DetectAvailableDiscs"
    using checkDrives_settled_funpow [OF det t, of n] by (simp add: funpow_swap1)
  then have "trace ((checkDrives e ^^ Suc n) s) =
          trace s @ (added s (checkDrives e s) @ replicate n DetectAvailableDiscs)"
    by (simp only: trace_checkDrives [of e s] append_assoc)
  then have "added s ((checkDrives e ^^ Suc n) s) =
          added s (checkDrives e s) @ replicate n DetectAvailableDiscs"
    by (rule added_append)
  then show ?thesis
    using items cycleBatch_enriched [OF ne en]
    by (simp add: pipelineCalls_checkDrives)
qed

lemma cleanup_cleanup: "cleanup dm (cleanup dm processed) = cleanup dm processed"
  by (rule ext) (simp add: cleanup_lookup)

lemma processedDiscs_checkDrives_nothing:
  "detectAvailableDiscs e = Inr ds \<Longrightarrow> cycleBatch e s = [] \<Longrightarrow>
   processedDiscs (checkDrives e s) = cleanup (detectedDriveMap ds) (processedDiscs s)"
  by (simp add: processedDiscs_checkDrives markProcessed_Nil)

lemma cycleNew_after_nothing:
  assumes "detectAvailableDiscs e = Inr ds" and "cycleBatch e s = []"
  shows "cycleNew e (checkDrives e s) = cycleNew e s"
  using assms
  by (simp add: cycleNew_def processedDiscs_checkDrives_nothing [OF assms] cleanup_cleanup)

lemma cycleBatch_after_nothing:
  assumes "detectAvailableDiscs e = Inr ds" and "cycleBatch e s = []"
  shows "cycleBatch e (checkDrives e s) = []"
  using assms(2) by (auto simp: cycleBatch_def cycleNew_after_nothing [OF assms] split: if_splits)

lemma never_dispatched:
  assumes det: "detectAvailableDiscs e = Inr ds" and b: "cycleBatch e s = []"
  shows "cycleNew e ((checkDrives e ^^ k) s) = cycleNew e s \<and>
         cycleBatch e ((checkDrives e ^^ k) s) = [] \<and>
         (\<exists>evs. trace ((checkDrives e ^^ k) s) = trace s @ evs \<and> filter isPipelineCall evs = [])"
proof (induction k)
  case 0
  show ?case using b by simp
next
  case (Suc k)
  let ?s = "(checkDrives e ^^ k) s"
  from Suc obtain evs where n: "cycleNew e ?s = cycleNew e s" and c: "cycleBatch e ?s = []"
    and t: "trace ?s = trace s @ evs" and f: "filter isPipelineCall evs = []"
    by blast
  have "trace (checkDrives e ?s) = trace s @ (evs @ added ?s (checkDrives e ?s))"
    by (simp only: trace_checkDrives [of e ?s] t append_assoc)
  moreover have "filter isPipelineCall (evs @ added ?s (checkDrives e ?s)) = []"
    using f c by (simp add: pipelineCalls_checkDrives)
  ultimately have "\<exists>evs'. trace (checkDrives e ?s) = trace s @ evs' \<and> filter isPipelineCall evs' = []"
    by blast
  then show ?case
    using cycleNew_after_nothing [OF det c] cycleBatch_after_nothing [OF det c] n
    by simp
qed

lemma never_dispatched_calls:
  assumes det: "detectAvailableDiscs e = Inr ds" and b: "cycleBatch e s = []"
  shows "filter isPipelineCall (added s ((checkDrives e ^^ k) s)) = []"
proof -
  from never_dispatched [OF det b, of k] obtain evs
    where t: "trace ((checkDrives e ^^ k) s) = trace s @ evs" and f: "filter isPipelineCall evs = []"
    by blast
  from t have "added s ((checkDrives e ^^ k) s) = evs" by (rule added_append)
  with f show ?thesis by simp
qed

lemma always_enriched:
  assumes det: "detectAvailableDiscs e = Inr ds" and b: "cycleBatch e s = []"
  shows "filter isEnrichCall (added s ((checkDrives e ^^ k) s)) =
           (if cycleNew e s = [] then [] else replicate k (GetCompleteDiscInfo (cycleNew e s)))"
proof (induction k)
  case 0
  show ?case by (simp add: added_def)
next
  case (Suc k)
  let ?s = "(checkDrives e ^^ k) s"
  from never_dispatched [OF det b, of k] obtain evs
    where n: "cycleNew e ?s = cycleNew e s" and t: "trace ?s = trace s @ evs"
    by blast
  from t have a: "added s ?s = evs" by (rule added_append)
  have "trace (checkDrives e ?s) = trace s @ (evs @ added ?s (checkDrives e ?s))"
    by (simp only: trace_checkDrives [of e ?s] t append_assoc)
  then have "added s (checkDrives e ?s) = evs @ added ?s (checkDrives e ?s)"
    by (rule added_append)
  with Suc a n show ?case
    by (simp add: enrichCalls_checkDrives replicate_append_same)
qed

text \<open>
  C3, as amended. In a scan cycle whose detection succeeds, the cleanup deletes the entry
  of a drive exactly when the cycle's map from drive to title does not have the drive or
  has it with another title; an entry that stays keeps its title, no entry is added, and
  on this cleaned map the cycle then marks the batch it dispatches. A disc is selected
  as new only when its drive has no entry after the cleanup, so a drive that had an
  entry before the cycle triggers processing only when the cleanup has deleted that
  entry because the title differs. A detected disc whose drive has no entry after the
  cleanup (it never had one, or it was purged in an earlier cycle or in this one) is
  selected as new. When the enrichment returns the records of the new discs, the disc is
  in the batch of the one pipeline call that this cycle and any number of further cycles
  on the same snapshot make together. When the cycle hands no batch to \<open>processDiscs\<close>
  (the enrichment fails or returns no record), no pipeline is called, the disc is not
  marked, and every further cycle on the same snapshot selects it as new again.
\<close>

theorem cleanup_and_reconsideration:
  assumes det: "detectAvailableDiscs e = Inr ds"
  shows "(processedDiscs s d = Some t \<longrightarrow>
            (cleanup (detectedDriveMap ds) (processedDiscs s) d = None) =
              (detectedDriveMap ds d = None \<or> detectedDriveMap ds d \<noteq> Some t) \<and>
            (cleanup (detectedDriveMap ds) (processedDiscs s) d \<noteq> None \<longrightarrow>
               cleanup (detectedDriveMap ds) (processedDiscs s) d = Some t)) \<and>
         (processedDiscs s d = None \<longrightarrow>
            cleanup (detectedDriveMap ds) (processedDiscs s) d = None) \<and>
         processedDiscs (checkDrives e s) =
           markProcessed (cycleBatch e s) (cleanup (detectedDriveMap ds) (processedDiscs s)) \<and>
         (\<forall>x\<in>set (cycleNew e s).
            x \<in> set ds \<and>
            cleanup (detectedDriveMap ds) (processedDiscs s) (driveNumber x) = None \<and>
            (\<forall>t'. processedDiscs s (driveNumber x) = Some t' \<longrightarrow>
                  detectedDriveMap ds (driveNumber x) \<noteq> Some t')) \<and>
         (\<forall>x\<in>set ds.
            cleanup (detectedDriveMap ds) (processedDiscs s) (driveNumber x) = None \<and>
            getCompleteDiscInfo e (cycleNew e s) = Inr items \<and>
            sameDiscs items (cycleNew e s) \<longrightarrow>
            x \<in> set (cycleNew e s) \<and>
            (\<exists>i\<in>set items. driveNumber i = driveNumber x \<and> title i = title x) \<and>
            filter isPipelineCall (added s ((checkDrives e ^^ Suc n) s)) = [pipelineCall e items]) \<and>
         (\<forall>x\<in>set ds.
            cleanup (detectedDriveMap ds) (processedDiscs s) (driveNumber x) = None \<and>
            cycleBatch e s = [] \<longrightarrow>
            x \<in> set (cycleNew e ((checkDrives e ^^ k) s)) \<and>
            filter isPipelineCall (added s ((checkDrives e ^^ k) s)) = [])"
proof (intro conjI ballI impI allI)
  show "(cleanup (detectedDriveMap ds) (processedDiscs s) d = None) =
          (detectedDriveMap ds d = None \<or> detectedDriveMap ds d \<noteq> Some t)"
    if "processedDiscs s d = Some t"
    using that by (auto simp: cleanup_lookup)
  show "cleanup (detectedDriveMap ds) (processedDiscs s) d = Some t"
    if "processedDiscs s d = Some t"
      and "cleanup (detectedDriveMap ds) (processedDiscs s) d \<noteq> None"
    using that by (simp add: cleanup_lookup split: if_splits)
  show "cleanup (detectedDriveMap ds) (processedDiscs s) d = None"
    if "processedDiscs s d = None"
    using that by (simp add: cleanup_lookup)
  show "processedDiscs (checkDrives e s) =
          markProcessed (cycleBatch e s) (cleanup (detectedDriveMap ds) (processedDiscs s))"
    using det by (simp add: processedDiscs_checkDrives)
next
  fix x :: disc
  assume x: "x \<in> set (cycleNew e s)"
  then show "x \<in> set ds"
    and c: "cleanup (detectedDriveMap ds) (processedDiscs s) (driveNumber x) = None"
    by (simp_all add: cycleNew_mem [OF det])
  show "detectedDriveMap ds (driveNumber x) \<noteq> Some t'"
    if "processedDiscs s (driveNumber x) = Some t'" for t'
    using that c by (auto simp: cleanup_lookup)
next
  fix x :: disc
  assume x: "x \<in> set ds"
    and h: "cleanup (detectedDriveMap ds) (processedDiscs s) (driveNumber x) = None \<and>
            getCompleteDiscInfo e (cycleNew e s) = Inr items \<and>
            sameDiscs items (cycleNew e s)"
  from x h show new: "x \<in> set (cycleNew e s)"
    by (simp add: cycleNew_mem [OF det])
  then have ne: "cycleNew e s \<noteq> []" by auto
  from new have "(driveNumber x, title x) \<in> set (map (\<lambda>d. (driveNumber d, title d)) (cycleNew e s))"
    by (metis (mono_tags, lifting) image_eqI list.set_map)
  with h have "(driveNumber x, title x) \<in> set (map (\<lambda>d. (driveNumber d, title d)) items)"
    by (simp add: sameDiscs_def)
  then show "\<exists>i\<in>set items. driveNumber i = driveNumber x \<and> title i = title x"
    by auto
  from h ne show "filter isPipelineCall (added s ((checkDrives e ^^ Suc n) s)) = [pipelineCall e items]"
    using dispatched_once [OF det] by blast
next
  fix x :: disc
  assume x: "x \<in> set ds"
    and h: "cleanup (detectedDriveMap ds) (processedDiscs s) (driveNumber x) = None \<and>
            cycleBatch e s = []"
  from x h have "x \<in> set (cycleNew e s)"
    by (simp add: cycleNew_mem [OF det])
  with h show "x \<in> set (cycleNew e ((checkDrives e ^^ k) s))"
    using never_dispatched [OF det, of s k] by simp
  from h show "filter isPipelineCall (added s ((checkDrives e ^^ k) s)) = []"
    using never_dispatched_calls [OF det] by blast
qed

lemma processedDiscs_purgedA: "processedDiscs purgedA = Map.empty"
  by (rule ext)
     (simp add: purgedA_def processedDiscs_checkDrives exampleEnv_def cycleBatch_def cycleNew_def
        newDiscs_def markProcessed_Nil cleanup_lookup detectedDriveMap_Nil)

lemma cycleNew_purgedA: "cycleNew (exampleEnv None (Inr [movieA]) None) purgedA = [movieA]"
  by (simp add: cycleNew_def processedDiscs_purgedA newDiscs_def cleanup_def exampleEnv_def)

lemma cycleNew_trackedA_changed:
  "cycleNew (exampleEnv None (Inr [movieB]) None) trackedA = [movieB]"
  by (simp add: cycleNew_def newDiscs_def cleanup_def detectedDriveMap_def movieB_def
        trackedA_def constructor_def exampleEnv_def)

lemma cycleNew_purgedA_emptyEnrich:
  "cycleNew (emptyEnrichEnv (Inr [movieA])) purgedA = [movieA]"
  by (simp add: cycleNew_def processedDiscs_purgedA newDiscs_def cleanup_def emptyEnrichEnv_def
        exampleEnv_def)

lemma cycleNew_purgedA_failingEnrich:
  "cycleNew (failingEnrichEnv (Inr [movieA])) purgedA = [movieA]"
  by (simp add: cycleNew_def processedDiscs_purgedA newDiscs_def cleanup_def failingEnrichEnv_def
        exampleEnv_def)

lemma cycleBatch_purgedA_emptyEnrich:
  "cycleBatch (emptyEnrichEnv (Inr [movieA])) purgedA = []"
  unfolding cycleBatch_def cycleNew_purgedA_emptyEnrich
  by (simp add: emptyEnrichEnv_def)

lemma cycleBatch_purgedA_failingEnrich:
  "cycleBatch (failingEnrichEnv (Inr [movieA])) purgedA = []"
  unfolding cycleBatch_def cycleNew_purgedA_failingEnrich
  by (simp add: failingEnrichEnv_def)

text \<open>
  The scenario of the specification: the disc in drive 1 was processed; a cycle finds
  the drive empty and deletes the entry; the disc comes back and is dispatched once in
  three cycles. And with another title in the drive, the entry is deleted and the new
  title is dispatched once in three cycles. With an enrichment that returns no record,
  the disc that came back is still selected as new after two cycles, and no pipeline has
  been called.
\<close>

theorem cleanup_and_reconsideration_witness:
  "processedDiscs trackedA 1 = Some ''Movie A'' \<and>
   detectedDriveMap [] 1 = None \<and>
   cleanup (detectedDriveMap []) (processedDiscs trackedA) 1 = None \<and>
   processedDiscs purgedA (driveNumber movieA) = None \<and>
   movieA \<in> set (cycleNew (exampleEnv None (Inr [movieA]) None) purgedA) \<and>
   filter isPipelineCall
     (added purgedA ((checkDrives (exampleEnv None (Inr [movieA]) None) ^^ Suc 2) purgedA))
     = [ProcessRippingQueue [withInfo movieA]] \<and>
   detectedDriveMap [movieB] 1 = Some ''Movie B'' \<and>
   cleanup (detectedDriveMap [movieB]) (processedDiscs trackedA) 1 = None \<and>
   filter isPipelineCall
     (added trackedA ((checkDrives (exampleEnv None (Inr [movieB]) None) ^^ Suc 2) trackedA))
     = [ProcessRippingQueue [withInfo movieB]] \<and>
   cycleBatch (emptyEnrichEnv (Inr [movieA])) purgedA = [] \<and>
   movieA \<in> set (cycleNew (emptyEnrichEnv (Inr [movieA]))
                    ((checkDrives (emptyEnrichEnv (Inr [movieA])) ^^ 2) purgedA)) \<and>
   filter isPipelineCall
     (added purgedA ((checkDrives (emptyEnrichEnv (Inr [movieA])) ^^ 2) purgedA)) = []"
proof -
  have d0: "detectAvailableDiscs (exampleEnv None (Inr []) None) = Inr []"
    by (simp add: exampleEnv_def)
  have d1: "detectAvailableDiscs (exampleEnv None (Inr [movieA]) None) = Inr [movieA]"
    by (simp add: exampleEnv_def)
  have d2: "detectAvailableDiscs (exampleEnv None (Inr [movieB]) None) = Inr [movieB]"
    by (simp add: exampleEnv_def)
  have t: "processedDiscs trackedA 1 = Some ''Movie A''"
    by (simp add: trackedA_def)
  have p: "processedDiscs purgedA (driveNumber movieA) = None"
    by (simp add: processedDiscs_purgedA)
  have g1: "getCompleteDiscInfo (exampleEnv None (Inr [movieA]) None)
             (cycleNew (exampleEnv None (Inr [movieA]) None) purgedA) = Inr [withInfo movieA]"
    unfolding cycleNew_purgedA by (simp add: exampleEnv_def)
  have s1: "sameDiscs [withInfo movieA] (cycleNew (exampleEnv None (Inr [movieA]) None) purgedA)"
    by (simp add: cycleNew_purgedA sameDiscs_def withInfo_def)
  have c1: "pipelineCall (exampleEnv None (Inr [movieA]) None) [withInfo movieA]
             = ProcessRippingQueue [withInfo movieA]"
    by (simp add: pipelineCall_def exampleEnv_def)
  have g2: "getCompleteDiscInfo (exampleEnv None (Inr [movieB]) None)
             (cycleNew (exampleEnv None (Inr [movieB]) None) trackedA) = Inr [withInfo movieB]"
    unfolding cycleNew_trackedA_changed by (simp add: exampleEnv_def)
  have s2: "sameDiscs [withInfo movieB] (cycleNew (exampleEnv None (Inr [movieB]) None) trackedA)"
    by (simp add: cycleNew_trackedA_changed sameDiscs_def withInfo_def)
  have c2: "pipelineCall (exampleEnv None (Inr [movieB]) None) [withInfo movieB]
             = ProcessRippingQueue [withInfo movieB]"
    by (simp add: pipelineCall_def exampleEnv_def)
  have m2: "detectedDriveMap [movieB] 1 = Some ''Movie B''"
    by (simp add: detectedDriveMap_def movieB_def)
  have k: "driveNumber movieB = 1" by (simp add: movieB_def)
  from cleanup_and_reconsideration [OF d0, of trackedA 1 "''Movie A''" "[]" 0] t
  have a: "cleanup (detectedDriveMap []) (processedDiscs trackedA) 1 = None"
    by (simp add: detectedDriveMap_Nil)
  have p': "cleanup (detectedDriveMap [movieA]) (processedDiscs purgedA) (driveNumber movieA) = None"
    by (simp add: processedDiscs_purgedA cleanup_lookup)
  from cleanup_and_reconsideration [OF d1, of purgedA 1 "''Movie A''" "[withInfo movieA]" 2]
    p' g1 s1 c1
  have b: "movieA \<in> set (cycleNew (exampleEnv None (Inr [movieA]) None) purgedA) \<and>
        filter isPipelineCall
          (added purgedA ((checkDrives (exampleEnv None (Inr [movieA]) None) ^^ Suc 2) purgedA))
          = [ProcessRippingQueue [withInfo movieA]]"
    by simp
  note w = cleanup_and_reconsideration [OF d2, of trackedA 1 "''Movie A''" "[withInfo movieB]" 2]
  from w t m2 have c: "cleanup (detectedDriveMap [movieB]) (processedDiscs trackedA) 1 = None"
    by simp
  from w c k g2 s2 c2
  have f: "filter isPipelineCall
          (added trackedA ((checkDrives (exampleEnv None (Inr [movieB]) None) ^^ Suc 2) trackedA))
          = [ProcessRippingQueue [withInfo movieB]]"
    by simp
  have d3: "detectAvailableDiscs (emptyEnrichEnv (Inr [movieA])) = Inr [movieA]"
    by (simp add: emptyEnrichEnv_def exampleEnv_def)
  from cleanup_and_reconsideration [OF d3, of purgedA 1 "''Movie A''" "[]" 0 2]
    p' cycleBatch_purgedA_emptyEnrich
  have e: "movieA \<in> set (cycleNew (emptyEnrichEnv (Inr [movieA]))
                    ((checkDrives (emptyEnrichEnv (Inr [movieA])) ^^ 2) purgedA)) \<and>
        filter isPipelineCall
          (added purgedA ((checkDrives (emptyEnrichEnv (Inr [movieA])) ^^ 2) purgedA)) = []"
    by simp
  with a b c f show ?thesis
    using t p m2 cycleBatch_purgedA_emptyEnrich by (simp add: detectedDriveMap_Nil)
qed

text \<open>
  C3 as stated fails where it says that the disc of a purged drive is dispatched exactly
  once: with an enrichment that returns no record, and with one that fails, three scan
  cycles on the snapshot with \<open>movieA\<close> ask the enrichment for it three times and call
  no pipeline.
\<close>

theorem dispatched_once_counterexample:
  "processedDiscs purgedA (driveNumber movieA) = None \<and>
   filter isEnrichCall
     (added purgedA ((checkDrives (emptyEnrichEnv (Inr [movieA])) ^^ 3) purgedA))
     = [GetCompleteDiscInfo [movieA], GetCompleteDiscInfo [movieA], GetCompleteDiscInfo [movieA]] \<and>
   filter isPipelineCall
     (added purgedA ((checkDrives (emptyEnrichEnv (Inr [movieA])) ^^ 3) purgedA)) = [] \<and>
   filter isEnrichCall
     (added purgedA ((checkDrives (failingEnrichEnv (Inr [movieA])) ^^ 3) purgedA))
     = [GetCompleteDiscInfo [movieA], GetCompleteDiscInfo [movieA], GetCompleteDiscInfo [movieA]] \<and>
   filter isPipelineCall
     (added purgedA ((checkDrives (failingEnrichEnv (Inr [movieA])) ^^ 3) purgedA)) = []"
proof -
  have d1: "detectAvailableDiscs (emptyEnrichEnv (Inr [movieA])) = Inr [movieA]"
    by (simp add: emptyEnrichEnv_def exampleEnv_def)
  have d2: "detectAvailableDiscs (failingEnrichEnv (Inr [movieA])) = Inr [movieA]"
    by (simp add: failingEnrichEnv_def exampleEnv_def)
  have r: "replicate 3 (GetCompleteDiscInfo [movieA]) =
      [GetCompleteDiscInfo [movieA], GetCompleteDiscInfo [movieA], GetCompleteDiscInfo [movieA]]"
    by (simp add: numeral_3_eq_3)
  show ?thesis
    using always_enriched [OF d1 cycleBatch_purgedA_emptyEnrich, of 3]
      never_dispatched_calls [OF d1 cycleBatch_purgedA_emptyEnrich, of 3]
      always_enriched [OF d2 cycleBatch_purgedA_failingEnrich, of 3]
      never_dispatched_calls [OF d2 cycleBatch_purgedA_failingEnrich, of 3]
    by (simp add: cycleNew_purgedA_emptyEnrich cycleNew_purgedA_failingEnrich r
          processedDiscs_purgedA)
qed

end
